theory Spec2Isabelle
  imports Main "HOL-Library.Word"
begin

section \<open>The address pool of the wallet (wallet/addresspool.go)\<close>

subsection \<open>Values exchanged with the collaborators\<close>

type_synonym uint32 = "32 word"

text \<open>
  \<open>dcrutil.Address\<close> is an interface. The pool calls two of its methods, so an address
  is the record of what these two methods answer (for \<open>Hash160\<close> the array behind the
  pointer it returns). A nil interface value is \<open>None\<close> of \<open>address option\<close>.
\<close>

record address =
  EncodeAddress :: string
  Hash160 :: "8 word list"

text \<open>\<open>waddrmgr.ManagedAddress\<close>: only its method \<open>Address()\<close> is used.\<close>

datatype managed_address = ManagedAddress (Address: address)

text \<open>
  Go \<open>error\<close> values. \<open>getLastAddressIndex\<close> asserts the dynamic type
  \<open>waddrmgr.ManagerError\<close> and reads its \<open>ErrorCode\<close>; \<open>fmt.Errorf\<close> builds the pool's own
  errors (format string and arguments); every other error is opaque.
\<close>

datatype error_code = ErrAddressNotFound | ErrOtherCode nat

datatype error =
    ManagerError error_code string
  | Errorf string "uint32 list"
  | OtherError string

text \<open>A call either returns or ends in a Go run-time panic (which is not an error value).\<close>

datatype 'a outcome = Returns 'a | Panics string

datatype pool_id = ExternalPool | InternalPool

text \<open>
  What a call does to the world outside the pool, in program order: the requests sent to
  the address manager, the chain and the notification server, the mutex operations and the
  log lines (by their format string).
\<close>

datatype event =
    CallNextToUseAddresses
  | CallLastExternalAddress uint32
  | CallLastInternalAddress uint32
  | CallGetAddress uint32 uint32 uint32
  | CallNextExternalAddresses uint32 uint32
  | CallNextInternalAddresses uint32 uint32
  | CallStoreNextToUseAddresses "address option" "address option"
  | CallExistsAddressOnChain address
  | CallNotifyReceived "address option list"
  | Lock pool_id
  | Unlock pool_id
  | LogInfof string
  | LogErrorf string

text \<open>
  The wallet behind the pointer \<open>a.wallet\<close> (and the receiver \<open>w\<close>), as far as the pool
  uses it: what \<open>w.Manager\<close>, \<open>w.chainSvr\<close> and \<open>w.existsAddressOnChain\<close> answer while one
  operation of the pool runs, and the flag \<open>w.addressReuse\<close>. These collaborators are not
  part of the two source files, so they are parameters: every field is the answer to a
  request, with \<open>Inl\<close> (or \<open>Some\<close>) for a non-nil \<open>err\<close>. The first result of
  \<open>LastExternalAddress\<close> and \<open>LastInternalAddress\<close> is discarded by the caller and is left
  out. \<open>DecodeAddress\<close> is \<open>dcrutil.DecodeAddress\<close> at the wallet's \<open>chainParams\<close>.
  During one operation a collaborator answers equal requests equally (the answers are
  functions of the request); between two operations the wallet may answer differently.
\<close>

record wallet =
  NextToUseAddresses :: "error + (address option \<times> address option)"
  LastExternalAddress :: "uint32 \<Rightarrow> error + uint32"
  LastInternalAddress :: "uint32 \<Rightarrow> error + uint32"
  GetAddress :: "uint32 \<Rightarrow> uint32 \<Rightarrow> uint32 \<Rightarrow> error + address"
  NextExternalAddresses :: "uint32 \<Rightarrow> uint32 \<Rightarrow> error + managed_address list"
  NextInternalAddresses :: "uint32 \<Rightarrow> uint32 \<Rightarrow> error + managed_address list"
  StoreNextToUseAddresses :: "address option \<Rightarrow> address option \<Rightarrow> error option"
  existsAddressOnChain :: "address \<Rightarrow> error + bool"
  NotifyReceived :: "address option list \<Rightarrow> error option"
  DecodeAddress :: "string \<Rightarrow> error + address"
  addressReuse :: bool

text \<open>
  Modelled from the spec: the constants \<open>waddrmgr.ExternalBranch\<close>,
  \<open>waddrmgr.InternalBranch\<close> and \<open>waddrmgr.DefaultAccountNum\<close> are declared outside the two
  source files. The spec fixes a branch as one of the two values External and Internal and
  the account as the default account; the numbers are those of BIP0044. The proofs use
  only that the two branches differ.
\<close>

definition ExternalBranch :: uint32 where
  "ExternalBranch = 0"

definition InternalBranch :: uint32 where
  "InternalBranch = 1"

definition DefaultAccountNum :: uint32 where
  "DefaultAccountNum = 0"

text \<open>The number of addresses to fetch when the pool runs out (an untyped Go constant).\<close>

definition addressPoolBuffer :: nat where
  "addressPoolBuffer = 20"

subsection \<open>The pool\<close>

text \<open>
  The struct \<open>addressPool\<close>. \<open>cursor\<close> is a Go \<open>int\<close> (64 bits; it stays within
  the length of the window, so it is an \<open>int\<close> here), \<open>index\<close> and \<open>branch\<close> are
  \<open>uint32\<close> and wrap around. \<open>mutex\<close> tells whether the pointer \<open>*sync.Mutex\<close> is non-nil.
  The pointer \<open>wallet\<close> is the argument \<open>w\<close> of the operations below. A nil slice and an empty
  slice are both \<open>[]\<close>.
\<close>

record addressPool =
  addresses :: "string list"
  cursor :: int
  branch :: uint32
  index :: uint32
  started :: bool
  mutex :: bool

definition NewAddressPool :: addressPool where
  "NewAddressPool =
     \<lparr>addresses = [], cursor = 0, branch = 0, index = 0, started = False, mutex = False\<rparr>"

subsection \<open>getLastAddressIndex\<close>

text \<open>
  The \<open>switch\<close> that selects the manager's function for the branch (\<open>None\<close>: the function
  value stays nil), paired with the event that records its call. Both results of
  \<open>getLastAddressIndex\<close> are kept: the index and the (possibly nil) error.
\<close>

definition lastAddrFunc ::
  "wallet \<Rightarrow> uint32 \<Rightarrow> ((uint32 \<Rightarrow> error + uint32) \<times> (uint32 \<Rightarrow> event)) option" where
  "lastAddrFunc w br =
     (if br = InternalBranch then Some (LastInternalAddress w, CallLastInternalAddress)
      else if br = ExternalBranch then Some (LastExternalAddress w, CallLastExternalAddress)
      else None)"

definition getLastAddressIndex :: "wallet \<Rightarrow> uint32 \<Rightarrow> (uint32 \<times> error option) \<times> event list" where
  "getLastAddressIndex w br =
     (case lastAddrFunc w br of
        None \<Rightarrow>
          ((0, Some (Errorf ''unknown branch for last address index in address pool'' [])), [])
      | Some (f, call) \<Rightarrow>
          (case f DefaultAccountNum of
             Inl err \<Rightarrow>
               (case err of
                  ManagerError code msg \<Rightarrow>
                    if code = ErrAddressNotFound
                    then ((0, None), [call DefaultAccountNum])
                    else ((0, Some err), [call DefaultAccountNum])
                | _ \<Rightarrow> ((0, Some err), [call DefaultAccountNum]))
           | Inr lastIndex \<Rightarrow> ((lastIndex, None), [call DefaultAccountNum])))"

subsection \<open>initialize\<close>

text \<open>
  One pass through the body of the backward walk (the statements inside the \<open>for\<close>): it
  ends by falling through to the decrement, by \<open>break\<close> or by \<open>return err\<close>.
\<close>

datatype loop_exit = Continue | Break | Return error

definition initialize_body ::
  "wallet \<Rightarrow> uint32 \<Rightarrow> address option \<Rightarrow> string list \<Rightarrow> uint32
     \<Rightarrow> loop_exit \<times> string list \<times> event list" where
  "initialize_body w br lastSavedAddr addrs actualLastIndex =
     (case GetAddress w actualLastIndex DefaultAccountNum br of
        Inl err \<Rightarrow> (Return err, addrs, [CallGetAddress actualLastIndex DefaultAccountNum br])
      | Inr addr \<Rightarrow>
          if \<not> addressReuse w then
            (case lastSavedAddr of
               Some lsa \<Rightarrow>
                 if Hash160 lsa = Hash160 addr
                 then (Break, EncodeAddress addr # addrs,
                       [CallGetAddress actualLastIndex DefaultAccountNum br])
                 else (Continue, EncodeAddress addr # addrs,
                       [CallGetAddress actualLastIndex DefaultAccountNum br])
             | None \<Rightarrow>
                 (Continue, EncodeAddress addr # addrs,
                  [CallGetAddress actualLastIndex DefaultAccountNum br]))
          else
            (case existsAddressOnChain w addr of
               Inl err \<Rightarrow>
                 (Return err, addrs,
                  [CallGetAddress actualLastIndex DefaultAccountNum br,
                   CallExistsAddressOnChain addr])
             | Inr exists \<Rightarrow>
                 if exists
                 then (Break, addrs,
                       [CallGetAddress actualLastIndex DefaultAccountNum br,
                        CallExistsAddressOnChain addr])
                 else (Continue, EncodeAddress addr # addrs,
                       [CallGetAddress actualLastIndex DefaultAccountNum br,
                        CallExistsAddressOnChain addr])))"

text \<open>
  The loop \<open>for actualLastIndex != 0 && traversed != addressPoolBuffer\<close>. It returns the
  error of an early \<open>return\<close> (if any), the window, \<open>actualLastIndex\<close> and the events.
\<close>

function initialize_loop ::
  "wallet \<Rightarrow> uint32 \<Rightarrow> address option \<Rightarrow> string list \<Rightarrow> uint32 \<Rightarrow> int
     \<Rightarrow> error option \<times> string list \<times> uint32 \<times> event list" where
  "initialize_loop w br lastSavedAddr addrs actualLastIndex traversed =
     (if actualLastIndex \<noteq> 0 \<and> traversed \<noteq> int addressPoolBuffer then
        (case initialize_body w br lastSavedAddr addrs actualLastIndex of
           (Return err, addrs', evs) \<Rightarrow> (Some err, addrs', actualLastIndex, evs)
         | (Break, addrs', evs) \<Rightarrow> (None, addrs', actualLastIndex, evs)
         | (Continue, addrs', evs) \<Rightarrow>
             (case initialize_loop w br lastSavedAddr addrs' (actualLastIndex - 1) (traversed + 1) of
                (err, addrs'', idx, evs') \<Rightarrow> (err, addrs'', idx, evs @ evs')))
      else (None, addrs, actualLastIndex, []))"
  by pat_completeness auto
termination
  by (relation "measure (\<lambda>(w, br, lastSavedAddr, addrs, actualLastIndex, traversed).
        unat actualLastIndex)")
     (auto simp: unat_minus_one unat_gt_0 word_neq_0_conv)

declare initialize_loop.simps [simp del]

text \<open>
  \<open>initialize\<close> returns its error (\<open>None\<close> for nil), the pool as it has been left, and the
  events. The pool is written to before the first request is sent, and an early \<open>return err\<close>
  keeps what has been written.
\<close>

definition initialize ::
  "uint32 \<Rightarrow> wallet \<Rightarrow> addressPool \<Rightarrow> error option \<times> addressPool \<times> event list" where
  "initialize br w a =
     (if started a then (None, a, [])
      else
        let a1 = a\<lparr>addresses := [], mutex := True, branch := br\<rparr> in
        (case NextToUseAddresses w of
           Inl err \<Rightarrow> (Some err, a1, [CallNextToUseAddresses])
         | Inr (lastExtAddr, lastIntAddr) \<Rightarrow>
             (case (if br = ExternalBranch then Some lastExtAddr
                    else if br = InternalBranch then Some lastIntAddr
                    else None) of
                None \<Rightarrow>
                  (Some (Errorf ''unknown branch %v for wallet default account given'' [br]),
                   a1, [CallNextToUseAddresses])
              | Some lastSavedAddr \<Rightarrow>
                  (case getLastAddressIndex w br of
                     ((lastIndex, err), evs1) \<Rightarrow>
                       if lastIndex = 0 \<and> err = None
                       then (None, a1\<lparr>index := 0, cursor := 0, started := True\<rparr>,
                             CallNextToUseAddresses # evs1)
                       else
                         (case initialize_loop w br lastSavedAddr (addresses a1) lastIndex 0 of
                            (Some err', addrs, actualLastIndex, evs2) \<Rightarrow>
                              (Some err', a1\<lparr>addresses := addrs\<rparr>,
                               CallNextToUseAddresses # evs1 @ evs2)
                          | (None, addrs, actualLastIndex, evs2) \<Rightarrow>
                              (None,
                               a1\<lparr>addresses := addrs, index := actualLastIndex, cursor := 0,
                                  started := True\<rparr>,
                               CallNextToUseAddresses # evs1 @ evs2 @
                                 [LogInfof ''Last actual index on pool branch %v start: %v'']))))))"

subsection \<open>GetNewAddress\<close>

text \<open>
  The block that replenishes the pool \<open>if a.cursor == len(a.addresses)-1 ||
  len(a.addresses) == 0\<close>. It asks the manager for \<open>addressPoolBuffer\<close> addresses of the
  pool's branch and appends every address of the answer.
\<close>

definition replenishes :: "addressPool \<Rightarrow> bool" where
  "replenishes a \<longleftrightarrow>
     cursor a = int (length (addresses a)) - 1 \<or> length (addresses a) = 0"

definition nextAddrFunc ::
  "wallet \<Rightarrow> uint32
     \<Rightarrow> ((uint32 \<Rightarrow> uint32 \<Rightarrow> error + managed_address list) \<times> (uint32 \<Rightarrow> uint32 \<Rightarrow> event)) option" where
  "nextAddrFunc w br =
     (if br = InternalBranch then Some (NextInternalAddresses w, CallNextInternalAddresses)
      else if br = ExternalBranch then Some (NextExternalAddresses w, CallNextExternalAddresses)
      else None)"

definition replenish :: "wallet \<Rightarrow> addressPool \<Rightarrow> error option \<times> addressPool \<times> event list" where
  "replenish w a =
     (if replenishes a then
        (case nextAddrFunc w (branch a) of
           None \<Rightarrow> (Some (Errorf ''unknown default account branch %v'' [branch a]), a, [])
         | Some (f, call) \<Rightarrow>
             (case f DefaultAccountNum (of_nat addressPoolBuffer) of
                Inl err \<Rightarrow>
                  (Some err, a, [call DefaultAccountNum (of_nat addressPoolBuffer)])
              | Inr addrs \<Rightarrow>
                  (None,
                   a\<lparr>addresses := addresses a @ map (\<lambda>addr. EncodeAddress (Address addr)) addrs\<rparr>,
                   [call DefaultAccountNum (of_nat addressPoolBuffer)])))
      else (None, a, []))"

text \<open>
  \<open>curAddress, _ := dcrutil.DecodeAddress(curAddressStr, a.wallet.chainParams)\<close>: the
  error is dropped by the source, which leaves a nil \<open>curAddress\<close>.
\<close>

definition decoded :: "wallet \<Rightarrow> string \<Rightarrow> address option" where
  "decoded w curAddressStr =
     (case DecodeAddress w curAddressStr of Inl err \<Rightarrow> None | Inr addr \<Rightarrow> Some addr)"

text \<open>
  \<open>GetNewAddress\<close> returns \<open>Inl err\<close> for \<open>(nil, err)\<close> and \<open>Inr curAddress\<close> for
  \<open>(curAddress, nil)\<close>. \<open>a.addresses[a.cursor]\<close> panics out of range.
\<close>

definition GetNewAddress ::
  "wallet \<Rightarrow> addressPool \<Rightarrow> (error + address option) outcome \<times> addressPool \<times> event list" where
  "GetNewAddress w a =
     (if \<not> started a
      then (Returns (Inl (Errorf ''failed to GetNewAddress; pool not started'' [])), a, [])
      else
        (case replenish w a of
           (Some err, a1, evs1) \<Rightarrow> (Returns (Inl err), a1, evs1)
         | (None, a1, evs1) \<Rightarrow>
             if cursor a1 < 0 \<or> int (length (addresses a1)) \<le> cursor a1
             then (Panics ''index out of range'', a1, evs1)
             else
               let curAddressStr = addresses a1 ! nat (cursor a1);
                   curAddress = decoded w curAddressStr;
                   a2 = a1\<lparr>cursor := cursor a1 + 1, index := index a1 + 1\<rparr>;
                   evs2 = evs1 @ [LogInfof ''Get new address for branch %v returned %s (idx %v)'',
                                  CallNotifyReceived [curAddress]]
               in (case NotifyReceived w [curAddress] of
                     Some err \<Rightarrow> (Returns (Inl err), a2, evs2)
                   | None \<Rightarrow> (Returns (Inr curAddress), a2, evs2))))"

subsection \<open>BatchFinish and BatchRollback\<close>

text \<open>
  \<open>BatchFinish\<close> has no result. The slice expression \<open>a.addresses[a.cursor:len(a.addresses)]\<close>
  panics for a negative \<open>cursor\<close> (the upper bound has been checked before). When
  \<open>GetAddress\<close> fails, the address passed on to the store is nil.
\<close>

definition BatchFinish :: "wallet \<Rightarrow> addressPool \<Rightarrow> unit outcome \<times> addressPool \<times> event list" where
  "BatchFinish w a =
     (if int (length (addresses a)) \<le> cursor a
      then (Returns (), a\<lparr>addresses := [], cursor := 0\<rparr>, [])
      else
        let (addr, evs1) =
              (case GetAddress w (index a + 1) DefaultAccountNum (branch a) of
                 Inl err \<Rightarrow>
                   (None,
                    [CallGetAddress (index a + 1) DefaultAccountNum (branch a),
                     LogErrorf (''Encountered unexpected error when trying to get '' @
                                ''the next to use address for branch %v, index %v'')])
               | Inr x \<Rightarrow>
                   (Some x, [CallGetAddress (index a + 1) DefaultAccountNum (branch a)]));
            evs2 =
              (if branch a = ExternalBranch then
                 CallStoreNextToUseAddresses addr None #
                 (case StoreNextToUseAddresses w addr None of
                    Some err \<Rightarrow>
                      [LogErrorf (''Failed to store next to use address for external '' @
                                  ''pool in the manager on batch finish: %v'')]
                  | None \<Rightarrow> [])
               else if branch a = InternalBranch then
                 CallStoreNextToUseAddresses None addr #
                 (case StoreNextToUseAddresses w None addr of
                    Some err \<Rightarrow>
                      [LogErrorf (''Failed to store next to use address for internal '' @
                                  ''pool in the manager on batch finish: %v'')]
                  | None \<Rightarrow> [])
               else [])
        in if cursor a < 0
           then (Panics ''slice bounds out of range'', a, evs1 @ evs2)
           else (Returns (),
                 a\<lparr>addresses := drop (nat (cursor a)) (addresses a), cursor := 0\<rparr>,
                 evs1 @ evs2))"

text \<open>\<open>uint32(a.cursor)\<close> keeps the low 32 bits of the \<open>int\<close>; the subtraction wraps.\<close>

definition BatchRollback :: "addressPool \<Rightarrow> addressPool \<times> event list" where
  "BatchRollback a =
     (a\<lparr>index := index a - word_of_int (cursor a), cursor := 0\<rparr>,
      [LogInfof ''Batch rollback for branch %v to idx %v''])"

subsection \<open>CloseAddressPools\<close>

text \<open>
  The two pool pointers of the \<open>Wallet\<close> struct; \<open>None\<close> is nil. The deferred unlocks run in
  the reverse order of their \<open>defer\<close> statements on every way out, also when
  \<open>GetNewAddress\<close> panics.
\<close>

record pools =
  internalPool :: "addressPool option"
  externalPool :: "addressPool option"

definition CloseAddressPools :: "wallet \<Rightarrow> pools \<Rightarrow> unit outcome \<times> pools \<times> event list" where
  "CloseAddressPools w ps =
     (case internalPool ps of
        None \<Rightarrow> (Returns (), ps, [])
      | Some ip \<Rightarrow>
     (case externalPool ps of
        None \<Rightarrow> (Returns (), ps, [])
      | Some ep \<Rightarrow>
          if \<not> started ip \<or> \<not> started ep then (Returns (), ps, [])
          else if \<not> mutex ip then (Returns (), ps, [])
          else if \<not> mutex ep then (Returns (), ps, [])
          else
            let locks = [Lock InternalPool, Lock ExternalPool];
                unlocks = [Unlock ExternalPool, Unlock InternalPool]
            in
            (case GetNewAddress w ep of
               (Panics msg, ep1, evs1) \<Rightarrow>
                 (Panics msg, ps\<lparr>externalPool := Some ep1\<rparr>, locks @ evs1 @ unlocks)
             | (Returns (Inl err), ep1, evs1) \<Rightarrow>
                 (Returns (), ps\<lparr>externalPool := Some ep1\<rparr>,
                  locks @ evs1 @
                  [LogErrorf (''Failed to get next to use address for address '' @
                              ''pool external: %v'')] @ unlocks)
             | (Returns (Inr nextExtAddr), ep1, evs1) \<Rightarrow>
            (case GetNewAddress w ip of
               (Panics msg, ip1, evs2) \<Rightarrow>
                 (Panics msg, ps\<lparr>internalPool := Some ip1, externalPool := Some ep1\<rparr>,
                  locks @ evs1 @ evs2 @ unlocks)
             | (Returns (Inl err), ip1, evs2) \<Rightarrow>
                 (Returns (), ps\<lparr>internalPool := Some ip1, externalPool := Some ep1\<rparr>,
                  locks @ evs1 @ evs2 @
                  [LogErrorf (''Failed to get next to use address for address '' @
                              ''pool internal: %v'')] @ unlocks)
             | (Returns (Inr nextIntAddr), ip1, evs2) \<Rightarrow>
                 (Returns (), ps\<lparr>internalPool := Some ip1, externalPool := Some ep1\<rparr>,
                  locks @ evs1 @ evs2 @
                  CallStoreNextToUseAddresses nextExtAddr nextIntAddr #
                  (case StoreNextToUseAddresses w nextExtAddr nextIntAddr of
                     Some err \<Rightarrow>
                       [LogErrorf (''Failed to store next to use addresses for address '' @
                                   ''pools in the manager: %v'')]
                   | None \<Rightarrow> []) @ unlocks)))))"

subsection \<open>GetNewAddressExternal and GetNewAddressInternal\<close>

text \<open>
  The exported functions lock the mutex of their pool, call \<open>GetNewAddress\<close> and unlock
  (deferred, so also on a panic). A nil pool or a nil mutex is a nil pointer dereference.
\<close>

definition GetNewAddressExternal ::
  "wallet \<Rightarrow> pools \<Rightarrow> (error + address option) outcome \<times> pools \<times> event list" where
  "GetNewAddressExternal w ps =
     (case externalPool ps of
        None \<Rightarrow> (Panics ''nil pointer dereference'', ps, [])
      | Some ep \<Rightarrow>
          if \<not> mutex ep then (Panics ''nil pointer dereference'', ps, [])
          else
            (case GetNewAddress w ep of
               (res, ep1, evs) \<Rightarrow>
                 (res, ps\<lparr>externalPool := Some ep1\<rparr>,
                  [Lock ExternalPool] @ evs @ [Unlock ExternalPool])))"

definition GetNewAddressInternal ::
  "wallet \<Rightarrow> pools \<Rightarrow> (error + address option) outcome \<times> pools \<times> event list" where
  "GetNewAddressInternal w ps =
     (case internalPool ps of
        None \<Rightarrow> (Panics ''nil pointer dereference'', ps, [])
      | Some ip \<Rightarrow>
          if \<not> mutex ip then (Panics ''nil pointer dereference'', ps, [])
          else
            (case GetNewAddress w ip of
               (res, ip1, evs) \<Rightarrow>
                 (res, ps\<lparr>internalPool := Some ip1\<rparr>,
                  [Lock InternalPool] @ evs @ [Unlock InternalPool])))"

subsection \<open>Goroutines and the two mutexes\<close>

text \<open>
  Several callers run at once. Of each caller only the events of its call matter here, and
  of these only the mutex operations interact: \<open>Lock\<close> of a \<open>sync.Mutex\<close> waits while any
  goroutine holds the mutex (also the caller itself), \<open>Unlock\<close> releases it, and every other
  event goes ahead. A thread is the list of the mutexes it holds and the events it still
  has to perform; \<open>schedule\<close> lets the threads take their steps in a given order and is
  \<open>None\<close> when a thread is asked to step that cannot.
\<close>

type_synonym thread = "pool_id list \<times> event list"

definition free :: "thread list \<Rightarrow> pool_id \<Rightarrow> bool" where
  "free ts l \<longleftrightarrow> (\<forall>t \<in> set ts. l \<notin> set (fst t))"

fun thread_step :: "thread list \<Rightarrow> thread \<Rightarrow> thread option" where
  "thread_step ts (held, []) = None"
| "thread_step ts (held, Lock l # evs) = (if free ts l then Some (l # held, evs) else None)"
| "thread_step ts (held, Unlock l # evs) = Some (removeAll l held, evs)"
| "thread_step ts (held, e # evs) = Some (held, evs)"

fun schedule :: "nat list \<Rightarrow> thread list \<Rightarrow> thread list option" where
  "schedule [] ts = Some ts"
| "schedule (i # sched) ts =
     (if i < length ts
      then (case thread_step ts (ts ! i) of
              None \<Rightarrow> None
            | Some t \<Rightarrow> schedule sched (ts[i := t]))
      else None)"

text \<open>A deadlock: some thread has events left and no thread can take a step.\<close>

definition deadlocked :: "thread list \<Rightarrow> bool" where
  "deadlocked ts \<longleftrightarrow>
     (\<exists>t \<in> set ts. snd t \<noteq> []) \<and> (\<forall>t \<in> set ts. thread_step ts t = None)"

text \<open>
  The discipline of a fixed order, internal before external: a trace locks no mutex that it
  holds, locks the internal mutex only while it does not hold the external one, unlocks only
  what it holds and ends holding nothing.
\<close>

fun lock_ordered :: "pool_id list \<Rightarrow> event list \<Rightarrow> bool" where
  "lock_ordered held [] = (held = [])"
| "lock_ordered held (Lock l # evs) =
     (l \<notin> set held \<and> (l = InternalPool \<longrightarrow> ExternalPool \<notin> set held) \<and>
      lock_ordered (l # held) evs)"
| "lock_ordered held (Unlock l # evs) = (l \<in> set held \<and> lock_ordered (removeAll l held) evs)"
| "lock_ordered held (e # evs) = lock_ordered held evs"

text \<open>Which events are mutex operations, stores of the checkpoint, notifications.\<close>

fun is_mutex_event :: "event \<Rightarrow> bool" where
  "is_mutex_event (Lock l) = True"
| "is_mutex_event (Unlock l) = True"
| "is_mutex_event e = False"

fun is_store_event :: "event \<Rightarrow> bool" where
  "is_store_event (CallStoreNextToUseAddresses extAddr intAddr) = True"
| "is_store_event e = False"

fun is_notify_event :: "event \<Rightarrow> bool" where
  "is_notify_event (CallNotifyReceived addrs) = True"
| "is_notify_event e = False"

subsection \<open>Sequences of operations on one pool\<close>

text \<open>
  The callers run the operations of one pool one after the other (under the pool's mutex).
  Each operation comes with the wallet as it answers during that operation, since the
  manager and the network change between two operations. \<open>exec\<close> gives the pool after the
  operation and the address handed out by it, if any.
\<close>

datatype pool_op =
    OpInitialize uint32 wallet
  | OpGetNewAddress wallet
  | OpBatchFinish wallet
  | OpBatchRollback

fun exec :: "pool_op \<Rightarrow> addressPool \<Rightarrow> addressPool \<times> address option list" where
  "exec (OpInitialize br w) a = (fst (snd (initialize br w a)), [])"
| "exec (OpGetNewAddress w) a =
     (case GetNewAddress w a of
        (Returns (Inr curAddress), a', evs) \<Rightarrow> (a', [curAddress])
      | (other, a', evs) \<Rightarrow> (a', []))"
| "exec (OpBatchFinish w) a = (fst (snd (BatchFinish w a)), [])"
| "exec OpBatchRollback a = (fst (BatchRollback a), [])"

fun run :: "pool_op list \<Rightarrow> addressPool \<Rightarrow> addressPool \<times> address option list" where
  "run [] a = (a, [])"
| "run (x # xs) a =
     (case exec x a of
        (a', out) \<Rightarrow> (case run xs a' of (a'', outs) \<Rightarrow> (a'', out @ outs)))"

text \<open>
  A series of usages of \<open>GetNewAddress\<close> that all succeed: the addresses handed out, in
  order, and the pool afterwards; \<open>None\<close> when one of the calls fails or panics.
\<close>

fun GetNewAddresses :: "wallet list \<Rightarrow> addressPool \<Rightarrow> (address option list \<times> addressPool) option" where
  "GetNewAddresses [] a = Some ([], a)"
| "GetNewAddresses (w # ws) a =
     (case GetNewAddress w a of
        (Returns (Inr curAddress), a', evs) \<Rightarrow>
          (case GetNewAddresses ws a' of
             Some (rest, a'') \<Rightarrow> Some (curAddress # rest, a'')
           | None \<Rightarrow> None)
      | (other, a', evs) \<Rightarrow> None)"

text \<open>
  The strings that the usages of \<open>GetNewAddress\<close> in a run have appended to the window
  (what the manager has derived for the pool during the run).
\<close>

fun supplied :: "pool_op list \<Rightarrow> addressPool \<Rightarrow> string list" where
  "supplied [] a = []"
| "supplied (OpGetNewAddress w # xs) a =
     drop (length (addresses a)) (addresses (fst (exec (OpGetNewAddress w) a))) @
     supplied xs (fst (exec (OpGetNewAddress w) a))"
| "supplied (x # xs) a = supplied xs (fst (exec x a))"

text \<open>The wallets that answer the usages of \<open>GetNewAddress\<close> in a run.\<close>

fun allocating_wallets :: "pool_op list \<Rightarrow> wallet list" where
  "allocating_wallets [] = []"
| "allocating_wallets (OpGetNewAddress w # xs) = w # allocating_wallets xs"
| "allocating_wallets (x # xs) = allocating_wallets xs"

text \<open>The invariant of the data model: \<open>0 <= cursor <= len(addresses)\<close>.\<close>

definition cursor_in_window :: "addressPool \<Rightarrow> bool" where
  "cursor_in_window a \<longleftrightarrow> 0 \<le> cursor a \<and> cursor a \<le> int (length (addresses a))"

subsection \<open>A concrete wallet\<close>

text \<open>
  A small deterministic wallet on which the operations can be evaluated: the address at
  index \<open>i\<close> is \<open>Ds\<close> followed by \<open>i\<close> letters, the manager knows the external indices up to
  3 and no internal one, the checkpoint of the external branch is the address at index 2,
  and a request for \<open>k\<close> new addresses answers the \<open>k\<close> addresses from index \<open>n\<close> on.
\<close>

definition test_address :: "uint32 \<Rightarrow> address" where
  "test_address i =
     \<lparr>EncodeAddress = ''Ds'' @ replicate (unat i) CHR ''x'', Hash160 = [ucast i]\<rparr>"

definition test_wallet :: "uint32 \<Rightarrow> wallet" where
  "test_wallet n =
     \<lparr>NextToUseAddresses = Inr (Some (test_address 2), None),
      LastExternalAddress = (\<lambda>acct. Inr 3),
      LastInternalAddress = (\<lambda>acct. Inl (ManagerError ErrAddressNotFound ''not found'')),
      GetAddress = (\<lambda>i acct br. Inr (test_address i)),
      NextExternalAddresses =
        (\<lambda>acct k. Inr (map (\<lambda>j. ManagedAddress (test_address (n + of_nat j))) [0..<unat k])),
      NextInternalAddresses =
        (\<lambda>acct k. Inr (map (\<lambda>j. ManagedAddress (test_address (n + of_nat j))) [0..<unat k])),
      StoreNextToUseAddresses = (\<lambda>extAddr intAddr. None),
      existsAddressOnChain = (\<lambda>addr. Inr False),
      NotifyReceived = (\<lambda>addrs. None),
      DecodeAddress =
        (\<lambda>s. Inr \<lparr>EncodeAddress = s, Hash160 = [of_nat (length s - 2)]\<rparr>),
      addressReuse = False\<rparr>"

definition test_pool :: "string list \<Rightarrow> int \<Rightarrow> uint32 \<Rightarrow> uint32 \<Rightarrow> addressPool" where
  "test_pool window c br i =
     \<lparr>addresses = window, cursor = c, branch = br, index = i, started = True, mutex = True\<rparr>"

definition test_pools :: pools where
  "test_pools =
     \<lparr>internalPool =
        Some (test_pool [EncodeAddress (test_address 7), EncodeAddress (test_address 8),
                         EncodeAddress (test_address 9)] 0 InternalBranch 7),
      externalPool =
        Some (test_pool [EncodeAddress (test_address 4), EncodeAddress (test_address 5),
                         EncodeAddress (test_address 6)] 1 ExternalBranch 5)\<rparr>"

section \<open>Properties\<close>

lemmas model_defs =
  GetNewAddress_def replenish_def replenishes_def nextAddrFunc_def BatchFinish_def
  BatchRollback_def ExternalBranch_def InternalBranch_def DefaultAccountNum_def
  addressPoolBuffer_def decoded_def test_wallet_def test_pool_def test_address_def Let_def

lemma test_pool_fields [simp]:
  "addresses (test_pool window c br i) = window" "cursor (test_pool window c br i) = c"
  "branch (test_pool window c br i) = br" "index (test_pool window c br i) = i"
  "started (test_pool window c br i)" "mutex (test_pool window c br i)"
  by (simp_all add: test_pool_def)

lemma branches_differ [simp]:
  "InternalBranch \<noteq> ExternalBranch" "ExternalBranch \<noteq> InternalBranch"
  by (simp_all add: InternalBranch_def ExternalBranch_def)

subsection \<open>The replenishing block\<close>

lemma replenish_keeps:
  assumes "replenish w a = (e, a1, evs1)"
  shows "cursor a1 = cursor a" "index a1 = index a" "started a1 = started a"
    "branch a1 = branch a" "mutex a1 = mutex a"
  using assms
  by (auto simp: replenish_def nextAddrFunc_def split: if_splits option.splits sum.splits)

lemma replenish_events:
  assumes "replenish w a = (e, a1, evs1)"
  shows "CallNotifyReceived x \<notin> set evs1"
    and "CallStoreNextToUseAddresses y z \<notin> set evs1"
    and "Lock l \<notin> set evs1" and "Unlock l \<notin> set evs1"
  using assms
  by (auto simp: replenish_def nextAddrFunc_def split: if_splits option.splits sum.splits)

lemma replenish_window:
  assumes "replenish w a = (None, a1, evs1)"
  shows "\<not> replenishes a \<longrightarrow> a1 = a \<and> evs1 = []"
    and "replenishes a \<longrightarrow>
           (\<exists>f call addrs. nextAddrFunc w (branch a) = Some (f, call) \<and>
              f DefaultAccountNum (of_nat addressPoolBuffer) = Inr addrs \<and>
              evs1 = [call DefaultAccountNum (of_nat addressPoolBuffer)] \<and>
              a1 = a\<lparr>addresses := addresses a @ map (\<lambda>addr. EncodeAddress (Address addr)) addrs\<rparr>)"
  using assms
  by (auto simp: replenish_def split: if_splits option.splits sum.splits)

lemma replenish_error:
  assumes "replenish w a = (Some err, a1, evs1)"
  shows "a1 = a"
  using assms
  by (auto simp: replenish_def split: if_splits option.splits sum.splits)

lemma replenish_appends:
  assumes "replenish w a = (e, a1, evs1)"
  shows "\<exists>new. addresses a1 = addresses a @ new"
  using assms
  by (auto simp: replenish_def split: if_splits option.splits sum.splits)

subsection \<open>What a successful GetNewAddress has done\<close>

lemma GetNewAddress_Returns_Inr:
  assumes "GetNewAddress w a = (Returns (Inr curAddress), a', evs)"
  shows "started a"
    and "a' = (fst (snd (replenish w a)))\<lparr>cursor := cursor a + 1, index := index a + 1\<rparr>"
    and "evs = snd (snd (replenish w a)) @
           [LogInfof ''Get new address for branch %v returned %s (idx %v)'',
            CallNotifyReceived [curAddress]]"
    and "fst (replenish w a) = None"
    and "0 \<le> cursor a" and "cursor a < int (length (addresses a'))"
    and "curAddress = decoded w (addresses a' ! nat (cursor a))"
    and "NotifyReceived w [curAddress] = None"
proof -
  obtain e a1 evs1 where r: "replenish w a = (e, a1, evs1)"
    by (cases "replenish w a") auto
  note k = replenish_keeps [OF r]
  from assms r k show "started a"
    and "a' = (fst (snd (replenish w a)))\<lparr>cursor := cursor a + 1, index := index a + 1\<rparr>"
    and "evs = snd (snd (replenish w a)) @
           [LogInfof ''Get new address for branch %v returned %s (idx %v)'',
            CallNotifyReceived [curAddress]]"
    and "fst (replenish w a) = None"
    and "0 \<le> cursor a" and "cursor a < int (length (addresses a'))"
    and "curAddress = decoded w (addresses a' ! nat (cursor a))"
    and "NotifyReceived w [curAddress] = None"
    by (auto simp: GetNewAddress_def Let_def split: if_splits option.splits)
qed

lemma GetNewAddress_no_mutex_events:
  assumes "GetNewAddress w a = (res, a', evs)"
  shows "filter is_mutex_event evs = []" and "filter is_store_event evs = []"
proof -
  obtain e a1 evs1 where r: "replenish w a = (e, a1, evs1)"
    by (cases "replenish w a") auto
  have "filter is_mutex_event evs1 = [] \<and> filter is_store_event evs1 = []"
    using r by (auto simp: replenish_def nextAddrFunc_def split: if_splits option.splits sum.splits)
  with assms r show "filter is_mutex_event evs = []" and "filter is_store_event evs = []"
    by (auto simp: GetNewAddress_def Let_def split: if_splits option.splits)
qed

lemma GetNewAddress_notify_events:
  assumes "GetNewAddress w a = (Returns (Inr curAddress), a', evs)"
  shows "filter is_notify_event evs = [CallNotifyReceived [curAddress]]"
proof -
  obtain e a1 evs1 where r: "replenish w a = (e, a1, evs1)"
    by (cases "replenish w a") auto
  have "filter is_notify_event evs1 = []"
    using r by (auto simp: replenish_def nextAddrFunc_def split: if_splits option.splits sum.splits)
  with GetNewAddress_Returns_Inr(3) [OF assms] r show ?thesis
    by simp
qed

subsection \<open>Replenishment\<close>

text \<open>
  Claim C3. In a successful \<open>GetNewAddress\<close> call on a started pool the manager is asked
  for new addresses exactly when \<open>cursor == len(addresses)-1\<close> or \<open>len(addresses) == 0\<close> at
  entry. The request is for \<open>addressPoolBuffer\<close> = 20 addresses, and every address of the
  answer is appended: with a manager that answers a request for \<open>n\<close> addresses with \<open>n\<close>
  addresses (or with an error), the window grows by exactly 20. Otherwise the window is
  unchanged and no request is sent. When the derivation fails, the call returns that error
  and leaves the pool as it was.
\<close>

theorem GetNewAddress_replenishment:
  assumes "started a"
    and "\<forall>acct n addrs. NextExternalAddresses w acct n = Inr addrs \<longrightarrow> length addrs = unat n"
    and "\<forall>acct n addrs. NextInternalAddresses w acct n = Inr addrs \<longrightarrow> length addrs = unat n"
    and "GetNewAddress w a = (res, a', evs)"
  shows "addressPoolBuffer = 20 \<and>
         (\<forall>curAddress. res = Returns (Inr curAddress) \<longrightarrow>
            ((cursor a = int (length (addresses a)) - 1 \<or> length (addresses a) = 0) \<longrightarrow>
               (\<exists>f call addrs.
                  nextAddrFunc w (branch a) = Some (f, call) \<and>
                  f DefaultAccountNum (of_nat addressPoolBuffer) = Inr addrs \<and>
                  call DefaultAccountNum (of_nat addressPoolBuffer) \<in> set evs \<and>
                  length addrs = addressPoolBuffer \<and>
                  addresses a' =
                    addresses a @ map (\<lambda>addr. EncodeAddress (Address addr)) addrs \<and>
                  length (addresses a') = length (addresses a) + addressPoolBuffer)) \<and>
            (\<not> (cursor a = int (length (addresses a)) - 1 \<or> length (addresses a) = 0) \<longrightarrow>
               addresses a' = addresses a \<and>
               (\<forall>acct n. CallNextExternalAddresses acct n \<notin> set evs \<and>
                         CallNextInternalAddresses acct n \<notin> set evs))) \<and>
         (\<forall>f call err.
            (cursor a = int (length (addresses a)) - 1 \<or> length (addresses a) = 0) \<and>
            nextAddrFunc w (branch a) = Some (f, call) \<and>
            f DefaultAccountNum (of_nat addressPoolBuffer) = Inl err \<longrightarrow>
            res = Returns (Inl err) \<and> a' = a)"
proof (intro conjI allI impI)
  show "addressPoolBuffer = 20" by (simp add: addressPoolBuffer_def)
next
  fix curAddress
  assume ok: "res = Returns (Inr curAddress)"
  assume c: "cursor a = int (length (addresses a)) - 1 \<or> length (addresses a) = 0"
  then have rp: "replenishes a" by (simp add: replenishes_def)
  obtain e a1 evs1 where r: "replenish w a = (e, a1, evs1)"
    by (cases "replenish w a") auto
  note g = GetNewAddress_Returns_Inr [OF assms(4) [unfolded ok]]
  from g(4) r have e: "e = None" by simp
  from replenish_window(2) [OF r [unfolded e]] rp obtain f call addrs where
    f: "nextAddrFunc w (branch a) = Some (f, call)"
    and d: "f DefaultAccountNum (of_nat addressPoolBuffer) = Inr addrs"
    and ev: "evs1 = [call DefaultAccountNum (of_nat addressPoolBuffer)]"
    and a1: "a1 = a\<lparr>addresses := addresses a @ map (\<lambda>addr. EncodeAddress (Address addr)) addrs\<rparr>"
    by blast
  from f d assms(2,3) have len: "length addrs = addressPoolBuffer"
    by (auto simp: nextAddrFunc_def addressPoolBuffer_def split: if_splits)
  from g(2,3) r ev a1 len f d
  show "\<exists>f call addrs.
          nextAddrFunc w (branch a) = Some (f, call) \<and>
          f DefaultAccountNum (of_nat addressPoolBuffer) = Inr addrs \<and>
          call DefaultAccountNum (of_nat addressPoolBuffer) \<in> set evs \<and>
          length addrs = addressPoolBuffer \<and>
          addresses a' = addresses a @ map (\<lambda>addr. EncodeAddress (Address addr)) addrs \<and>
          length (addresses a') = length (addresses a) + addressPoolBuffer"
    by auto
next
  fix curAddress
  assume ok: "res = Returns (Inr curAddress)"
  assume c: "\<not> (cursor a = int (length (addresses a)) - 1 \<or> length (addresses a) = 0)"
  then have rp: "\<not> replenishes a" by (simp add: replenishes_def)
  then have r: "replenish w a = (None, a, [])" by (simp add: replenish_def)
  note g = GetNewAddress_Returns_Inr [OF assms(4) [unfolded ok]]
  from g(2,3) r
  show "addresses a' = addresses a" by simp
  fix acct n
  from g(3) r show "CallNextExternalAddresses acct n \<notin> set evs" by simp
  from g(3) r show "CallNextInternalAddresses acct n \<notin> set evs" by simp
next
  fix f call err
  assume h: "(cursor a = int (length (addresses a)) - 1 \<or> length (addresses a) = 0) \<and>
       nextAddrFunc w (branch a) = Some (f, call) \<and>
       f DefaultAccountNum (of_nat addressPoolBuffer) = Inl err"
  then have "replenish w a = (Some err, a, [call DefaultAccountNum (of_nat addressPoolBuffer)])"
    by (simp add: replenish_def replenishes_def)
  with assms(1,4) show "res = Returns (Inl err)" and "a' = a"
    by (simp_all add: GetNewAddress_def)
qed

theorem GetNewAddress_replenishment_witness:
  "started (test_pool [''Dsx''] 0 ExternalBranch 1) \<and>
   NextExternalAddresses (test_wallet 10) DefaultAccountNum 2 =
     Inr [ManagedAddress (test_address 10), ManagedAddress (test_address 11)] \<and>
   cursor (test_pool [''Dsx''] 0 ExternalBranch 1) =
     int (length (addresses (test_pool [''Dsx''] 0 ExternalBranch 1))) - 1 \<and>
   GetNewAddress (test_wallet 10) (test_pool [''Dsx''] 0 ExternalBranch 1) =
     (Returns (Inr (Some \<lparr>EncodeAddress = ''Dsx'', Hash160 = [1]\<rparr>)),
      test_pool (''Dsx'' # map (\<lambda>j. ''Ds'' @ replicate j CHR ''x'') [10..<30]) 1 ExternalBranch 2,
      [CallNextExternalAddresses 0 20,
       LogInfof ''Get new address for branch %v returned %s (idx %v)'',
       CallNotifyReceived [Some \<lparr>EncodeAddress = ''Dsx'', Hash160 = [1]\<rparr>]]) \<and>
   length (addresses
      (test_pool (''Dsx'' # map (\<lambda>j. ''Ds'' @ replicate j CHR ''x'') [10..<30]) 1 ExternalBranch 2))
     = length (addresses (test_pool [''Dsx''] 0 ExternalBranch 1)) + addressPoolBuffer"
proof -
  let ?w = "test_wallet 10"
  let ?a = "test_pool [''Dsx''] 0 ExternalBranch 1"
  let ?a' = "test_pool (''Dsx'' # map (\<lambda>j. ''Ds'' @ replicate j CHR ''x'') [10..<30]) 1
               ExternalBranch 2"
  let ?evs = "[CallNextExternalAddresses 0 20,
       LogInfof ''Get new address for branch %v returned %s (idx %v)'',
       CallNotifyReceived [Some \<lparr>EncodeAddress = ''Dsx'', Hash160 = [1]\<rparr>]]"
  have h1: "started ?a"
    by (simp add: test_pool_def)
  have h2: "\<forall>acct n addrs. NextExternalAddresses ?w acct n = Inr addrs \<longrightarrow> length addrs = unat n"
    by (auto simp: test_wallet_def)
  have h3: "\<forall>acct n addrs. NextInternalAddresses ?w acct n = Inr addrs \<longrightarrow> length addrs = unat n"
    by (auto simp: test_wallet_def)
  have h4: "GetNewAddress ?w ?a =
              (Returns (Inr (Some \<lparr>EncodeAddress = ''Dsx'', Hash160 = [1]\<rparr>)), ?a', ?evs)"
    by (simp add: model_defs upt_rec)
  have c: "cursor ?a = int (length (addresses ?a)) - 1"
    by (simp add: test_pool_def)
  from GetNewAddress_replenishment [OF h1 h2 h3 h4] c
  have "length (addresses ?a') = length (addresses ?a) + addressPoolBuffer"
    by blast
  moreover have "NextExternalAddresses ?w DefaultAccountNum 2 =
     Inr [ManagedAddress (test_address 10), ManagedAddress (test_address 11)]"
    by (simp add: test_wallet_def upt_rec)
  ultimately show ?thesis
    using h1 h4 c by (intro conjI)
qed

subsection \<open>A failing notification\<close>

text \<open>
  Claim C9. If \<open>NotifyReceived\<close> fails inside a \<open>GetNewAddress\<close> call on a started pool, the
  call returns that error, and yet the pool has been changed: \<open>cursor\<close> and \<open>index\<close> are one
  greater than at entry and the addresses appended by a replenishment of the same call stay
  in the window (the pool is the replenished pool with the two counters advanced). The
  error is not atomic: only \<open>BatchRollback\<close> resets the cursor, and it then leaves the
  \<open>index\<close> that a rollback at entry would have left.
\<close>

theorem GetNewAddress_notify_failure_not_atomic:
  assumes "started a"
    and "GetNewAddress w a = (res, a', evs)"
    and "CallNotifyReceived addrs \<in> set evs"
    and "NotifyReceived w addrs = Some err"
  shows "res = Returns (Inl err) \<and>
         cursor a' = cursor a + 1 \<and> index a' = index a + 1 \<and>
         a' = (fst (snd (replenish w a)))\<lparr>cursor := cursor a + 1, index := index a + 1\<rparr> \<and>
         (\<exists>new. addresses a' = addresses a @ new) \<and>
         cursor (fst (BatchRollback a')) = 0 \<and>
         index (fst (BatchRollback a')) = index a - word_of_int (cursor a)"
proof -
  obtain e a1 evs1 where r: "replenish w a = (e, a1, evs1)"
    by (cases "replenish w a") auto
  note k = replenish_keeps [OF r] and ev = replenish_events(1) [OF r]
  from assms(1-3) r ev obtain e: "e = None"
    and rng: "\<not> (cursor a1 < 0 \<or> int (length (addresses a1)) \<le> cursor a1)"
    by (auto simp: GetNewAddress_def Let_def split: option.splits if_splits)
  from assms r e rng ev have
    "res = Returns (Inl err) \<and> a' = a1\<lparr>cursor := cursor a1 + 1, index := index a1 + 1\<rparr>"
    by (auto simp: GetNewAddress_def Let_def split: option.splits)
  moreover have "\<exists>new. addresses a1 = addresses a @ new"
    using replenish_appends [OF r] .
  ultimately show ?thesis
    using k r by (auto simp: BatchRollback_def)
qed

theorem GetNewAddress_notify_failure_not_atomic_witness:
  "started (test_pool [''Dsx''] 0 ExternalBranch 1) \<and>
   GetNewAddress ((test_wallet 10)\<lparr>NotifyReceived := (\<lambda>addrs. Some (OtherError ''down''))\<rparr>)
       (test_pool [''Dsx''] 0 ExternalBranch 1) =
     (Returns (Inl (OtherError ''down'')),
      test_pool (''Dsx'' # map (\<lambda>j. ''Ds'' @ replicate j CHR ''x'') [10..<30]) 1 ExternalBranch 2,
      [CallNextExternalAddresses 0 20,
       LogInfof ''Get new address for branch %v returned %s (idx %v)'',
       CallNotifyReceived [Some \<lparr>EncodeAddress = ''Dsx'', Hash160 = [1]\<rparr>]]) \<and>
   index (fst (BatchRollback
      (test_pool (''Dsx'' # map (\<lambda>j. ''Ds'' @ replicate j CHR ''x'') [10..<30]) 1 ExternalBranch 2)))
     = 1"
proof -
  let ?w = "(test_wallet 10)\<lparr>NotifyReceived := (\<lambda>addrs. Some (OtherError ''down''))\<rparr>"
  let ?a = "test_pool [''Dsx''] 0 ExternalBranch 1"
  let ?a' = "test_pool (''Dsx'' # map (\<lambda>j. ''Ds'' @ replicate j CHR ''x'') [10..<30]) 1
               ExternalBranch 2"
  let ?evs = "[CallNextExternalAddresses 0 20,
       LogInfof ''Get new address for branch %v returned %s (idx %v)'',
       CallNotifyReceived [Some \<lparr>EncodeAddress = ''Dsx'', Hash160 = [1]\<rparr>]]"
  have h1: "started ?a"
    by (simp add: test_pool_def)
  have h2: "GetNewAddress ?w ?a = (Returns (Inl (OtherError ''down'')), ?a', ?evs)"
    by (simp add: model_defs upt_rec)
  have h3: "CallNotifyReceived [Some \<lparr>EncodeAddress = ''Dsx'', Hash160 = [1]\<rparr>] \<in> set ?evs"
    by simp
  have h4: "NotifyReceived ?w [Some \<lparr>EncodeAddress = ''Dsx'', Hash160 = [1]\<rparr>]
              = Some (OtherError ''down'')"
    by (simp add: test_wallet_def)
  have "index (fst (BatchRollback ?a')) = index ?a - word_of_int (cursor ?a)"
    using GetNewAddress_notify_failure_not_atomic [OF h1 h2 h3 h4] by (elim conjE)
  then have "index (fst (BatchRollback ?a')) = 1"
    by (simp add: test_pool_def)
  with h1 h2 show ?thesis
    by (intro conjI)
qed

subsection \<open>BatchFinish\<close>

text \<open>
  Claim C5. \<open>BatchFinish\<close> never reports an error: on a pool whose cursor is not negative
  it returns, whatever the manager answers. The pool it leaves does not depend on these
  answers: the consumed prefix \<open>addresses[0..cursor)\<close> is dropped, the cursor is 0 and
  the index handed out so far is kept. A failing lookup of the checkpoint address and a
  failing store are logged and nothing else.
\<close>

theorem BatchFinish_never_fails:
  assumes "0 \<le> cursor a"
  shows "\<exists>evs. BatchFinish w a =
           (Returns (), a\<lparr>addresses := drop (nat (cursor a)) (addresses a), cursor := 0\<rparr>, evs) \<and>
         (\<forall>i acct br err. CallGetAddress i acct br \<in> set evs \<and> GetAddress w i acct br = Inl err
            \<longrightarrow> (\<exists>msg. LogErrorf msg \<in> set evs)) \<and>
         (\<forall>extAddr intAddr err. CallStoreNextToUseAddresses extAddr intAddr \<in> set evs \<and>
              StoreNextToUseAddresses w extAddr intAddr = Some err
            \<longrightarrow> (\<exists>msg. LogErrorf msg \<in> set evs))"
  using assms
  by (auto simp: BatchFinish_def Let_def split: sum.splits option.splits prod.splits)

theorem BatchFinish_never_fails_witness:
  "0 \<le> cursor (test_pool [''Dsx'', ''Dsxx'', ''Dsxxx''] 2 ExternalBranch 2) \<and>
   GetAddress ((test_wallet 10)\<lparr>GetAddress := (\<lambda>i acct br. Inl (OtherError ''locked'')),
         StoreNextToUseAddresses := (\<lambda>extAddr intAddr. Some (OtherError ''disk full''))\<rparr>)
       3 DefaultAccountNum ExternalBranch = Inl (OtherError ''locked'') \<and>
   StoreNextToUseAddresses ((test_wallet 10)\<lparr>GetAddress := (\<lambda>i acct br. Inl (OtherError ''locked'')),
         StoreNextToUseAddresses := (\<lambda>extAddr intAddr. Some (OtherError ''disk full''))\<rparr>)
       None None = Some (OtherError ''disk full'') \<and>
   (\<exists>evs. BatchFinish ((test_wallet 10)\<lparr>GetAddress := (\<lambda>i acct br. Inl (OtherError ''locked'')),
         StoreNextToUseAddresses := (\<lambda>extAddr intAddr. Some (OtherError ''disk full''))\<rparr>)
       (test_pool [''Dsx'', ''Dsxx'', ''Dsxxx''] 2 ExternalBranch 2) =
     (Returns (), test_pool [''Dsxxx''] 0 ExternalBranch 2, evs) \<and>
     CallGetAddress 3 DefaultAccountNum ExternalBranch \<in> set evs \<and>
     CallStoreNextToUseAddresses None None \<in> set evs \<and>
     (\<exists>msg. LogErrorf msg \<in> set evs))"
  using BatchFinish_never_fails [of "test_pool [''Dsx'', ''Dsxx'', ''Dsxxx''] 2 ExternalBranch 2"
      "(test_wallet 10)\<lparr>GetAddress := (\<lambda>i acct br. Inl (OtherError ''locked'')),
         StoreNextToUseAddresses := (\<lambda>extAddr intAddr. Some (OtherError ''disk full''))\<rparr>"]
  by (simp add: model_defs)

subsection \<open>The cursor stays inside the window\<close>

text \<open>
  A pool that has not been started has its cursor at 0; with this the invariant is
  inductive, also across an \<open>initialize\<close> that fails after it has emptied the window.
\<close>

lemma initialize_inv:
  assumes "cursor_in_window a" and "\<not> started a \<longrightarrow> cursor a = 0"
    and "initialize br w a = (r, a', evs)"
  shows "cursor_in_window a' \<and> (\<not> started a' \<longrightarrow> cursor a' = 0)"
  using assms
  by (auto simp: initialize_def Let_def cursor_in_window_def
           split: if_splits sum.splits option.splits prod.splits)

lemma GetNewAddress_inv:
  assumes "cursor_in_window a" and "\<not> started a \<longrightarrow> cursor a = 0"
    and "GetNewAddress w a = (r, a', evs)"
  shows "cursor_in_window a' \<and> (\<not> started a' \<longrightarrow> cursor a' = 0)"
proof (cases "started a")
  case False
  with assms show ?thesis by (simp add: GetNewAddress_def)
next
  case True
  obtain e a1 evs1 where r: "replenish w a = (e, a1, evs1)"
    by (cases "replenish w a") auto
  from replenish_appends [OF r] obtain new where n: "addresses a1 = addresses a @ new" ..
  note k = replenish_keeps [OF r]
  from assms(1,3) True r n k show ?thesis
    by (auto simp: GetNewAddress_def Let_def cursor_in_window_def
             split: if_splits option.splits)
qed

lemma BatchFinish_inv:
  assumes "cursor_in_window a" and "\<not> started a \<longrightarrow> cursor a = 0"
    and "BatchFinish w a = (r, a', evs)"
  shows "cursor_in_window a' \<and> (\<not> started a' \<longrightarrow> cursor a' = 0)"
  using assms
  by (auto simp: BatchFinish_def Let_def cursor_in_window_def
           split: if_splits sum.splits option.splits prod.splits)

lemma BatchRollback_inv:
  assumes "cursor_in_window a"
  shows "cursor_in_window (fst (BatchRollback a)) \<and> cursor (fst (BatchRollback a)) = 0"
  using assms by (simp add: BatchRollback_def cursor_in_window_def)

lemma exec_inv:
  assumes "cursor_in_window a" and "\<not> started a \<longrightarrow> cursor a = 0"
  shows "cursor_in_window (fst (exec x a)) \<and>
         (\<not> started (fst (exec x a)) \<longrightarrow> cursor (fst (exec x a)) = 0)"
proof (cases x)
  case (OpInitialize br w)
  then show ?thesis
    using initialize_inv [OF assms, of br w] by (cases "initialize br w a") auto
next
  case (OpGetNewAddress w)
  then show ?thesis
    using GetNewAddress_inv [OF assms, of w]
    by (cases "GetNewAddress w a") (auto split: outcome.splits sum.splits)
next
  case (OpBatchFinish w)
  then show ?thesis
    using BatchFinish_inv [OF assms, of w] by (cases "BatchFinish w a") auto
next
  case OpBatchRollback
  then show ?thesis
    using BatchRollback_inv [OF assms(1)] by simp
qed

lemma run_inv:
  assumes "cursor_in_window a" and "\<not> started a \<longrightarrow> cursor a = 0"
  shows "cursor_in_window (fst (run xs a)) \<and>
         (\<not> started (fst (run xs a)) \<longrightarrow> cursor (fst (run xs a)) = 0)"
  using assms
proof (induction xs arbitrary: a)
  case Nil
  then show ?case by simp
next
  case (Cons x xs)
  from exec_inv [OF Cons.prems, of x] Cons.IH [of "fst (exec x a)"]
  show ?case by (auto split: prod.splits)
qed

text \<open>
  Claim C7. \<open>0 <= cursor <= len(addresses)\<close> holds for the pool that \<open>NewAddressPool\<close>
  constructs and in every state that any sequence of \<open>initialize\<close>, \<open>GetNewAddress\<close>,
  \<open>BatchFinish\<close> and \<open>BatchRollback\<close> reaches from it, with any answers of the
  collaborators; and each of the four operations preserves it on every pool that is started
  or has its cursor at 0 (as every reachable pool is).
\<close>

theorem cursor_in_window_invariant:
  "cursor_in_window NewAddressPool \<and>
   cursor_in_window (fst (run ops NewAddressPool)) \<and>
   (cursor_in_window a \<and> (started a \<or> cursor a = 0) \<longrightarrow>
      cursor_in_window (fst (snd (initialize br w a))) \<and>
      cursor_in_window (fst (snd (GetNewAddress w a))) \<and>
      cursor_in_window (fst (snd (BatchFinish w a))) \<and>
      cursor_in_window (fst (BatchRollback a)))"
proof -
  have n: "cursor_in_window NewAddressPool" "\<not> started NewAddressPool \<longrightarrow> cursor NewAddressPool = 0"
    by (simp_all add: NewAddressPool_def cursor_in_window_def)
  have "cursor_in_window (fst (snd (initialize br w a)))"
       "cursor_in_window (fst (snd (GetNewAddress w a)))"
       "cursor_in_window (fst (snd (BatchFinish w a)))"
       "cursor_in_window (fst (BatchRollback a))"
    if "cursor_in_window a" "\<not> started a \<longrightarrow> cursor a = 0"
    using initialize_inv [OF that, of br w] GetNewAddress_inv [OF that, of w]
      BatchFinish_inv [OF that, of w] BatchRollback_inv [OF that(1)]
    by (auto simp: prod_eq_iff)
  with n run_inv [OF n, of ops] show ?thesis by blast
qed

theorem cursor_in_window_invariant_witness:
  "cursor_in_window (test_pool [''Dsx''] 0 ExternalBranch 1) \<and>
   (started (test_pool [''Dsx''] 0 ExternalBranch 1) \<or>
    cursor (test_pool [''Dsx''] 0 ExternalBranch 1) = 0) \<and>
   cursor_in_window NewAddressPool \<and>
   cursor_in_window
     (fst (run [OpInitialize ExternalBranch (test_wallet 10), OpGetNewAddress (test_wallet 10),
                OpGetNewAddress (test_wallet 10), OpBatchRollback,
                OpGetNewAddress (test_wallet 10), OpBatchFinish (test_wallet 10)]
            NewAddressPool)) \<and>
   cursor_in_window (fst (snd (initialize ExternalBranch (test_wallet 10)
                                  (test_pool [''Dsx''] 0 ExternalBranch 1)))) \<and>
   cursor_in_window (fst (snd (GetNewAddress (test_wallet 10)
                                  (test_pool [''Dsx''] 0 ExternalBranch 1)))) \<and>
   cursor_in_window (fst (snd (BatchFinish (test_wallet 10)
                                  (test_pool [''Dsx''] 0 ExternalBranch 1)))) \<and>
   cursor_in_window (fst (BatchRollback (test_pool [''Dsx''] 0 ExternalBranch 1)))"
proof -
  have h: "cursor_in_window (test_pool [''Dsx''] 0 ExternalBranch 1) \<and>
           (started (test_pool [''Dsx''] 0 ExternalBranch 1) \<or>
            cursor (test_pool [''Dsx''] 0 ExternalBranch 1) = 0)"
    by (simp add: cursor_in_window_def test_pool_def)
  with cursor_in_window_invariant
    [of "[OpInitialize ExternalBranch (test_wallet 10), OpGetNewAddress (test_wallet 10),
          OpGetNewAddress (test_wallet 10), OpBatchRollback,
          OpGetNewAddress (test_wallet 10), OpBatchFinish (test_wallet 10)]"
        "test_pool [''Dsx''] 0 ExternalBranch 1" ExternalBranch "test_wallet 10"]
  show ?thesis
    by blast
qed

subsection \<open>initialize\<close>

lemma lastAddrFunc_branch:
  "lastAddrFunc w br = Some (f, call) \<Longrightarrow> br = ExternalBranch \<or> br = InternalBranch"
  by (auto simp: lastAddrFunc_def split: if_splits)

lemma initialize_body_visits:
  assumes "initialize_body w br lsa addrs idx = (ex, addrs', evs)"
  shows "\<forall>i acct b. CallGetAddress i acct b \<in> set evs \<longrightarrow> i = idx"
    and "CallGetAddress idx DefaultAccountNum br \<in> set evs"
    and "addrs' = addrs \<or>
         (\<exists>addr. GetAddress w idx DefaultAccountNum br = Inr addr \<and>
                 addrs' = EncodeAddress addr # addrs)"
  using assms
  by (auto simp: initialize_body_def split: sum.splits if_splits option.splits)

lemma initialize_loop_visits:
  assumes "initialize_loop w br lsa addrs idx t = (e, addrs', idx', evs)"
  shows "(\<forall>i acct b. CallGetAddress i acct b \<in> set evs \<longrightarrow> i \<noteq> 0) \<and>
         (\<exists>new. addrs' = new @ addrs \<and>
            (\<forall>s \<in> set new. \<exists>i addr. i \<noteq> 0 \<and>
                CallGetAddress i DefaultAccountNum br \<in> set evs \<and>
                GetAddress w i DefaultAccountNum br = Inr addr \<and> s = EncodeAddress addr))"
  using assms
proof (induction idx arbitrary: addrs t e addrs' idx' evs rule: measure_induct_rule [where f = unat])
  case (less idx)
  show ?case
  proof (cases "idx \<noteq> 0 \<and> t \<noteq> int addressPoolBuffer")
    case False
    with less.prems show ?thesis
      by (subst (asm) initialize_loop.simps) auto
  next
    case True
    obtain ex addrs1 evs1 where b: "initialize_body w br lsa addrs idx = (ex, addrs1, evs1)"
      by (cases "initialize_body w br lsa addrs idx") auto
    note v = initialize_body_visits [OF b]
    show ?thesis
    proof (cases ex)
      case Continue
      obtain e2 addrs2 idx2 evs2 where
        l: "initialize_loop w br lsa addrs1 (idx - 1) (t + 1) = (e2, addrs2, idx2, evs2)"
        by (cases "initialize_loop w br lsa addrs1 (idx - 1) (t + 1)") auto
      from True have "unat (idx - 1) < unat idx"
        by (simp add: unat_minus_one unat_gt_0 word_neq_0_conv)
      from less.IH [OF this l] obtain new where
        i1: "\<forall>i acct b. CallGetAddress i acct b \<in> set evs2 \<longrightarrow> i \<noteq> 0"
        and i2: "addrs2 = new @ addrs1"
        and i3: "\<forall>s \<in> set new. \<exists>i addr. i \<noteq> 0 \<and>
                CallGetAddress i DefaultAccountNum br \<in> set evs2 \<and>
                GetAddress w i DefaultAccountNum br = Inr addr \<and> s = EncodeAddress addr"
        by blast
      from less.prems True b Continue l have r: "addrs' = addrs2" "evs = evs1 @ evs2"
        by (subst (asm) initialize_loop.simps, simp)+
      from v(1) i1 True r have "\<forall>i acct b. CallGetAddress i acct b \<in> set evs \<longrightarrow> i \<noteq> 0"
        by fastforce
      moreover from v(3) have "\<exists>new. addrs' = new @ addrs \<and>
            (\<forall>s \<in> set new. \<exists>i addr. i \<noteq> 0 \<and>
                CallGetAddress i DefaultAccountNum br \<in> set evs \<and>
                GetAddress w i DefaultAccountNum br = Inr addr \<and> s = EncodeAddress addr)"
      proof
        assume "addrs1 = addrs"
        with i2 i3 r show ?thesis by (auto; blast)
      next
        assume "\<exists>addr. GetAddress w idx DefaultAccountNum br = Inr addr \<and>
                 addrs1 = EncodeAddress addr # addrs"
        then obtain addr where g: "GetAddress w idx DefaultAccountNum br = Inr addr"
          and a1: "addrs1 = EncodeAddress addr # addrs" by blast
        have "addrs' = (new @ [EncodeAddress addr]) @ addrs"
          using i2 a1 r by simp
        moreover have "\<forall>s \<in> set (new @ [EncodeAddress addr]). \<exists>i addr. i \<noteq> 0 \<and>
                CallGetAddress i DefaultAccountNum br \<in> set evs \<and>
                GetAddress w i DefaultAccountNum br = Inr addr \<and> s = EncodeAddress addr"
          using i3 g v(2) True r by (auto; blast)
        ultimately show ?thesis by blast
      qed
      ultimately show ?thesis by blast
    next
      case Break
      from less.prems True b Break have r: "addrs' = addrs1" "evs = evs1"
        by (subst (asm) initialize_loop.simps, simp)+
      with v True show ?thesis by (auto; blast)
    next
      case (Return err)
      from less.prems True b Return have r: "addrs' = addrs1" "evs = evs1"
        by (subst (asm) initialize_loop.simps, simp)+
      with v True show ?thesis by (auto; blast)
    qed
  qed
qed

lemma initialize_unfold:
  assumes "\<not> started a"
    and "NextToUseAddresses w = Inr (lastExtAddr, lastIntAddr)"
    and "br = ExternalBranch \<or> br = InternalBranch"
    and "getLastAddressIndex w br = ((lastIndex, err), evs1)"
    and "initialize_loop w br (if br = ExternalBranch then lastExtAddr else lastIntAddr) []
           lastIndex 0 = (e, addrs, idx, evs2)"
  shows "initialize br w a =
     (if lastIndex = 0 \<and> err = None
      then (None,
            a\<lparr>addresses := [], mutex := True, branch := br, index := 0, cursor := 0,
              started := True\<rparr>,
            CallNextToUseAddresses # evs1)
      else (case e of
              Some err' \<Rightarrow>
                (Some err', a\<lparr>addresses := addrs, mutex := True, branch := br\<rparr>,
                 CallNextToUseAddresses # evs1 @ evs2)
            | None \<Rightarrow>
                (None,
                 a\<lparr>addresses := addrs, mutex := True, branch := br, index := idx, cursor := 0,
                   started := True\<rparr>,
                 CallNextToUseAddresses # evs1 @ evs2 @
                   [LogInfof ''Last actual index on pool branch %v start: %v''])))"
  using assms(3)
proof
  assume "br = ExternalBranch"
  with assms(1,2,4,5) show ?thesis
    by (simp add: initialize_def Let_def split: option.splits)
next
  assume "br = InternalBranch"
  with assms(1,2,4,5) show ?thesis
    by (simp add: initialize_def Let_def split: option.splits)
qed

text \<open>
  Claim C10. On a pool that is not started, \<open>initialize\<close> treats a branch whose highest
  known index is 0 exactly as a branch without any address (\<open>ErrAddressNotFound\<close>): in both
  cases it succeeds with the same pool (\<open>index\<close> 0, \<open>cursor\<close> 0, empty window, started)
  and the same requests. The backward walk never asks for the address at index 0, and every
  address of the window that \<open>initialize\<close> leaves is the address of an index other than
  0 that the walk has visited.
\<close>

theorem initialize_index_zero:
  assumes "\<not> started a"
    and "NextToUseAddresses w = Inr (lastExtAddr, lastIntAddr)"
    and "lastAddrFunc w br = Some (f, call)"
  shows "(f DefaultAccountNum = Inr 0 \<or>
          (\<exists>msg. f DefaultAccountNum = Inl (ManagerError ErrAddressNotFound msg)) \<longrightarrow>
            initialize br w a =
              (None,
               a\<lparr>addresses := [], mutex := True, branch := br, index := 0, cursor := 0,
                 started := True\<rparr>,
               [CallNextToUseAddresses, call DefaultAccountNum])) \<and>
         (\<forall>i acct b. CallGetAddress i acct b \<in> set (snd (snd (initialize br w a))) \<longrightarrow> i \<noteq> 0) \<and>
         (\<forall>s \<in> set (addresses (fst (snd (initialize br w a)))).
            \<exists>i addr. i \<noteq> 0 \<and>
              CallGetAddress i DefaultAccountNum br \<in> set (snd (snd (initialize br w a))) \<and>
              GetAddress w i DefaultAccountNum br = Inr addr \<and> s = EncodeAddress addr)"
proof (intro conjI impI)
  note b = lastAddrFunc_branch [OF assms(3)]
  assume "f DefaultAccountNum = Inr 0 \<or>
          (\<exists>msg. f DefaultAccountNum = Inl (ManagerError ErrAddressNotFound msg))"
  then have "getLastAddressIndex w br = ((0, None), [call DefaultAccountNum])"
    using assms(3) by (auto simp: getLastAddressIndex_def)
  with assms(1,2) b show "initialize br w a =
              (None,
               a\<lparr>addresses := [], mutex := True, branch := br, index := 0, cursor := 0,
                 started := True\<rparr>,
               [CallNextToUseAddresses, call DefaultAccountNum])"
    by (elim disjE) (simp_all add: initialize_def Let_def)
next
  note b = lastAddrFunc_branch [OF assms(3)]
  obtain lastIndex err evs1 where g: "getLastAddressIndex w br = ((lastIndex, err), evs1)"
    by (cases "getLastAddressIndex w br") auto
  then have g1: "\<forall>i acct b. CallGetAddress i acct b \<notin> set evs1"
    by (auto simp: getLastAddressIndex_def lastAddrFunc_def
             split: option.splits sum.splits error.splits if_splits)
  define lsa where "lsa = (if br = ExternalBranch then lastExtAddr else lastIntAddr)"
  obtain e addrs idx evs2 where l: "initialize_loop w br lsa [] lastIndex 0 = (e, addrs, idx, evs2)"
    by (cases "initialize_loop w br lsa [] lastIndex 0") auto
  note v = initialize_loop_visits [OF l]
  note u = initialize_unfold [OF assms(1,2) b g l [unfolded lsa_def]]
  show "\<forall>i acct b. CallGetAddress i acct b \<in> set (snd (snd (initialize br w a))) \<longrightarrow> i \<noteq> 0"
    using g1 v unfolding u by (cases e) auto
  show "\<forall>s \<in> set (addresses (fst (snd (initialize br w a)))).
            \<exists>i addr. i \<noteq> 0 \<and>
              CallGetAddress i DefaultAccountNum br \<in> set (snd (snd (initialize br w a))) \<and>
              GetAddress w i DefaultAccountNum br = Inr addr \<and> s = EncodeAddress addr"
    using v unfolding u by (cases e) (auto; blast)+
qed

lemma initialize_test_wallet:
  "initialize ExternalBranch (test_wallet 10) NewAddressPool =
     (None,
      test_pool [EncodeAddress (test_address 2), EncodeAddress (test_address 3)] 0 ExternalBranch 2,
      [CallNextToUseAddresses, CallLastExternalAddress DefaultAccountNum,
       CallGetAddress 3 DefaultAccountNum ExternalBranch,
       CallGetAddress 2 DefaultAccountNum ExternalBranch,
       LogInfof ''Last actual index on pool branch %v start: %v''])"
  by (simp add: initialize_def NewAddressPool_def getLastAddressIndex_def lastAddrFunc_def
      initialize_loop.simps initialize_body_def model_defs)

theorem initialize_index_zero_witness:
  "\<not> started NewAddressPool \<and>
   NextToUseAddresses ((test_wallet 10)\<lparr>LastExternalAddress := (\<lambda>acct. Inr 0)\<rparr>) =
     Inr (Some (test_address 2), None) \<and>
   lastAddrFunc ((test_wallet 10)\<lparr>LastExternalAddress := (\<lambda>acct. Inr 0)\<rparr>) ExternalBranch =
     Some (\<lambda>acct. Inr 0, CallLastExternalAddress) \<and>
   lastAddrFunc (test_wallet 10) InternalBranch =
     Some (\<lambda>acct. Inl (ManagerError ErrAddressNotFound ''not found''), CallLastInternalAddress) \<and>
   initialize ExternalBranch ((test_wallet 10)\<lparr>LastExternalAddress := (\<lambda>acct. Inr 0)\<rparr>)
       NewAddressPool =
     (None, test_pool [] 0 ExternalBranch 0,
      [CallNextToUseAddresses, CallLastExternalAddress DefaultAccountNum]) \<and>
   initialize InternalBranch (test_wallet 10) NewAddressPool =
     (None, test_pool [] 0 InternalBranch 0,
      [CallNextToUseAddresses, CallLastInternalAddress DefaultAccountNum]) \<and>
   addresses (fst (snd (initialize ExternalBranch (test_wallet 10) NewAddressPool))) =
     [EncodeAddress (test_address 2), EncodeAddress (test_address 3)] \<and>
   CallGetAddress 0 DefaultAccountNum ExternalBranch \<notin>
     set (snd (snd (initialize ExternalBranch (test_wallet 10) NewAddressPool)))"
proof -
  let ?u = "(test_wallet 10)\<lparr>LastExternalAddress := (\<lambda>acct. Inr 0)\<rparr>"
  let ?w = "test_wallet 10"
  have h1: "\<not> started NewAddressPool"
    by (simp add: NewAddressPool_def)
  have h2: "NextToUseAddresses ?u = Inr (Some (test_address 2), None)"
    and h2': "NextToUseAddresses ?w = Inr (Some (test_address 2), None)"
    by (simp_all add: test_wallet_def)
  have h3: "lastAddrFunc ?u ExternalBranch = Some (\<lambda>acct. Inr 0, CallLastExternalAddress)"
    by (simp add: lastAddrFunc_def test_wallet_def)
  have h3': "lastAddrFunc ?w InternalBranch =
     Some (\<lambda>acct. Inl (ManagerError ErrAddressNotFound ''not found''), CallLastInternalAddress)"
    by (simp add: lastAddrFunc_def test_wallet_def)
  have h3'': "lastAddrFunc ?w ExternalBranch = Some (LastExternalAddress ?w, CallLastExternalAddress)"
    by (simp add: lastAddrFunc_def)
  have "initialize ExternalBranch ?u NewAddressPool =
     (None, test_pool [] 0 ExternalBranch 0,
      [CallNextToUseAddresses, CallLastExternalAddress DefaultAccountNum])"
    using initialize_index_zero [OF h1 h2 h3] by (simp add: NewAddressPool_def test_pool_def)
  moreover have "initialize InternalBranch ?w NewAddressPool =
     (None, test_pool [] 0 InternalBranch 0,
      [CallNextToUseAddresses, CallLastInternalAddress DefaultAccountNum])"
    using initialize_index_zero [OF h1 h2' h3'] by (simp add: NewAddressPool_def test_pool_def)
  moreover have "CallGetAddress 0 DefaultAccountNum ExternalBranch \<notin>
        set (snd (snd (initialize ExternalBranch ?w NewAddressPool)))"
    using initialize_index_zero [OF h1 h2' h3''] by blast
  moreover have "addresses (fst (snd (initialize ExternalBranch ?w NewAddressPool))) =
     [EncodeAddress (test_address 2), EncodeAddress (test_address 3)]"
    by (simp add: initialize_test_wallet test_pool_def)
  ultimately show ?thesis
    using h1 h2 h3 h3' by (intro conjI)
qed

text \<open>
  Claim C4, as stated, fails: with the checkpoint at index 2 and the highest known index 3
  the window is not the address at index 3 alone; the matched address at index 2 is its
  first element.
\<close>

theorem initialize_window_counterexample:
  "\<not> addressReuse (test_wallet 10) \<and>
   NextToUseAddresses (test_wallet 10) = Inr (Some (test_address 2), None) \<and>
   LastExternalAddress (test_wallet 10) DefaultAccountNum = Inr 3 \<and>
   GetAddress (test_wallet 10) 2 DefaultAccountNum ExternalBranch = Inr (test_address 2) \<and>
   GetAddress (test_wallet 10) 3 DefaultAccountNum ExternalBranch = Inr (test_address 3) \<and>
   addresses (fst (snd (initialize ExternalBranch (test_wallet 10) NewAddressPool))) =
     [EncodeAddress (test_address 2), EncodeAddress (test_address 3)] \<and>
   addresses (fst (snd (initialize ExternalBranch (test_wallet 10) NewAddressPool))) \<noteq>
     [EncodeAddress (test_address 3)]"
  by (simp add: initialize_test_wallet) (simp add: test_wallet_def test_pool_def)

lemma initialize_loop_match:
  assumes "\<not> addressReuse w" and "m \<noteq> 0" and "m \<le> idx" and "0 \<le> t"
    and "t + int (unat idx - unat m) < int addressPoolBuffer"
    and "\<forall>i. m \<le> i \<and> i \<le> idx \<longrightarrow> GetAddress w i DefaultAccountNum br = Inr (addr i)"
    and "Hash160 (addr m) = Hash160 lsa"
    and "\<forall>i. m < i \<and> i \<le> idx \<longrightarrow> Hash160 (addr i) \<noteq> Hash160 lsa"
  shows "initialize_loop w br (Some lsa) addrs idx t =
           (None,
            map (\<lambda>i. EncodeAddress (addr i)) (map of_nat [unat m..<Suc (unat idx)]) @ addrs,
            m,
            map (\<lambda>i. CallGetAddress i DefaultAccountNum br)
                (rev (map of_nat [unat m..<Suc (unat idx)])))"
  using assms
proof (induction k \<equiv> "unat idx - unat m" arbitrary: idx t addrs)
  case 0
  then have eq: "idx = m"
    by (simp add: word_le_nat_alt word_unat_eq_iff)
  have b: "initialize_body w br (Some lsa) addrs m =
             (Break, EncodeAddress (addr m) # addrs, [CallGetAddress m DefaultAccountNum br])"
    using "0.prems" eq by (simp add: initialize_body_def)
  from "0.prems" eq have "t \<noteq> int addressPoolBuffer" by simp
  with b "0.prems"(2) eq show ?case
    by (subst initialize_loop.simps) simp
next
  case (Suc k)
  from Suc.hyps(2) Suc.prems(3) have lt: "m < idx"
    by (simp add: word_less_nat_alt)
  then have nz: "idx \<noteq> 0" by auto
  have u: "unat (idx - 1) = unat idx - 1"
    using nz by (simp add: unat_minus_one)
  from lt have le': "m \<le> idx - 1"
    using u by (simp add: word_le_nat_alt word_less_nat_alt)
  have dn: "idx - 1 \<le> idx"
    using u by (simp add: word_le_nat_alt)
  from Suc.prems(8) lt have ne: "Hash160 lsa \<noteq> Hash160 (addr idx)"
    by fastforce
  have b: "initialize_body w br (Some lsa) addrs idx =
             (Continue, EncodeAddress (addr idx) # addrs, [CallGetAddress idx DefaultAccountNum br])"
    using Suc.prems(1,3,6) ne by (simp add: initialize_body_def)
  have k: "k = unat (idx - 1) - unat m"
    using Suc.hyps(2) u by simp
  have t': "t + 1 + int (unat (idx - 1) - unat m) < int addressPoolBuffer"
    using Suc.prems(5) Suc.hyps(2) u by simp
  have g': "\<forall>i. m \<le> i \<and> i \<le> idx - 1 \<longrightarrow> GetAddress w i DefaultAccountNum br = Inr (addr i)"
    using Suc.prems(6) dn by (meson order_trans)
  have h': "\<forall>i. m < i \<and> i \<le> idx - 1 \<longrightarrow> Hash160 (addr i) \<noteq> Hash160 lsa"
    using Suc.prems(8) dn by (meson order_trans)
  have ih: "initialize_loop w br (Some lsa) (EncodeAddress (addr idx) # addrs) (idx - 1) (t + 1) =
           (None,
            map (\<lambda>i. EncodeAddress (addr i)) (map of_nat [unat m..<Suc (unat (idx - 1))]) @
              EncodeAddress (addr idx) # addrs,
            m,
            map (\<lambda>i. CallGetAddress i DefaultAccountNum br)
                (rev (map of_nat [unat m..<Suc (unat (idx - 1))])))"
    using Suc.hyps(1) [OF k Suc.prems(1,2) le' _ t' g' Suc.prems(7) h'] Suc.prems(4) by simp
  have s: "Suc (unat (idx - 1)) = unat idx"
    using u nz by (simp add: unat_gt_0 word_neq_0_conv)
  have ml: "unat m \<le> unat idx"
    using Suc.prems(3) by (simp add: word_le_nat_alt)
  from Suc.prems(4,5) have "t \<noteq> int addressPoolBuffer" by simp
  with nz b ih show ?case
    by (subst initialize_loop.simps) (simp add: s ml)
qed

text \<open>
  Claim C4, amended. On a pool that is not started, for a non-fresh branch with address
  reuse disabled, when the addresses from index \<open>m\<close> (not 0, at most 19 below the highest
  known index) up to the highest known index can be derived and the one at \<open>m\<close> is the
  first, walking down, whose \<open>Hash160\<close> equals that of the persisted checkpoint, the walk
  visits exactly the indices from the highest known one down to \<open>m\<close> and stops there. The
  window is then exactly the addresses at the indices from \<open>m\<close> up to the highest known
  index, in ascending order: the matched address is the first element of the window, and
  \<open>index\<close> is \<open>m\<close>.
\<close>

theorem initialize_walk_to_checkpoint:
  assumes "\<not> started a" and "\<not> addressReuse w"
    and "NextToUseAddresses w = Inr (lastExtAddr, lastIntAddr)"
    and "lastAddrFunc w br = Some (f, call)"
    and "f DefaultAccountNum = Inr lastIndex"
    and "(if br = ExternalBranch then lastExtAddr else lastIntAddr) = Some lsa"
    and "m \<noteq> 0" and "m \<le> lastIndex" and "unat lastIndex - unat m < addressPoolBuffer"
    and "\<forall>i. m \<le> i \<and> i \<le> lastIndex \<longrightarrow> GetAddress w i DefaultAccountNum br = Inr (addr i)"
    and "Hash160 (addr m) = Hash160 lsa"
    and "\<forall>i. m < i \<and> i \<le> lastIndex \<longrightarrow> Hash160 (addr i) \<noteq> Hash160 lsa"
  shows "initialize br w a =
           (None,
            a\<lparr>addresses :=
                 map (\<lambda>i. EncodeAddress (addr i)) (map of_nat [unat m..<Suc (unat lastIndex)]),
              mutex := True, branch := br, index := m, cursor := 0, started := True\<rparr>,
            [CallNextToUseAddresses, call DefaultAccountNum] @
            map (\<lambda>i. CallGetAddress i DefaultAccountNum br)
                (rev (map of_nat [unat m..<Suc (unat lastIndex)])) @
            [LogInfof ''Last actual index on pool branch %v start: %v''])"
proof -
  note b = lastAddrFunc_branch [OF assms(4)]
  have g: "getLastAddressIndex w br = ((lastIndex, None), [call DefaultAccountNum])"
    using assms(4,5) by (simp add: getLastAddressIndex_def)
  have t: "0 + int (unat lastIndex - unat m) < int addressPoolBuffer"
    using assms(9) by simp
  have l: "initialize_loop w br (if br = ExternalBranch then lastExtAddr else lastIntAddr) []
             lastIndex 0 =
           (None,
            map (\<lambda>i. EncodeAddress (addr i)) (map of_nat [unat m..<Suc (unat lastIndex)]),
            m,
            map (\<lambda>i. CallGetAddress i DefaultAccountNum br)
                (rev (map of_nat [unat m..<Suc (unat lastIndex)])))"
    using initialize_loop_match [OF assms(2,7,8) _ t assms(10,11,12), of "[]"]
    unfolding assms(6) by simp
  from assms(7,8) have "lastIndex \<noteq> 0"
    by (auto simp: word_le_nat_alt unat_eq_0)
  with initialize_unfold [OF assms(1,3) b g l] show ?thesis
    by simp
qed

theorem initialize_walk_to_checkpoint_witness:
  "\<not> started NewAddressPool \<and> \<not> addressReuse (test_wallet 10) \<and>
   NextToUseAddresses (test_wallet 10) = Inr (Some (test_address 2), None) \<and>
   LastExternalAddress (test_wallet 10) DefaultAccountNum = Inr 3 \<and>
   (\<forall>i. GetAddress (test_wallet 10) i DefaultAccountNum ExternalBranch = Inr (test_address i)) \<and>
   Hash160 (test_address 3) \<noteq> Hash160 (test_address 2) \<and>
   initialize ExternalBranch (test_wallet 10) NewAddressPool =
     (None,
      test_pool [EncodeAddress (test_address 2), EncodeAddress (test_address 3)] 0 ExternalBranch 2,
      [CallNextToUseAddresses, CallLastExternalAddress DefaultAccountNum,
       CallGetAddress 3 DefaultAccountNum ExternalBranch,
       CallGetAddress 2 DefaultAccountNum ExternalBranch,
       LogInfof ''Last actual index on pool branch %v start: %v''])"
proof -
  let ?w = "test_wallet 10"
  have h1: "\<not> started NewAddressPool" by (simp add: NewAddressPool_def)
  have h2: "\<not> addressReuse ?w" by (simp add: test_wallet_def)
  have h3: "NextToUseAddresses ?w = Inr (Some (test_address 2), None)"
    by (simp add: test_wallet_def)
  have h4: "lastAddrFunc ?w ExternalBranch = Some (LastExternalAddress ?w, CallLastExternalAddress)"
    by (simp add: lastAddrFunc_def)
  have h5: "LastExternalAddress ?w DefaultAccountNum = Inr 3" by (simp add: test_wallet_def)
  have h6: "(if ExternalBranch = ExternalBranch then Some (test_address 2) else None)
              = Some (test_address 2)" by simp
  have h7: "(2::uint32) \<noteq> 0" by simp
  have h8: "(2::uint32) \<le> 3" by simp
  have h9: "unat (3::uint32) - unat (2::uint32) < addressPoolBuffer"
    by (simp add: addressPoolBuffer_def)
  have h10: "\<forall>i. 2 \<le> i \<and> i \<le> 3 \<longrightarrow>
               GetAddress ?w i DefaultAccountNum ExternalBranch = Inr (test_address i)"
    by (simp add: test_wallet_def)
  have h11: "Hash160 (test_address 2) = Hash160 (test_address 2)" by simp
  have ne: "Hash160 (test_address 3) \<noteq> Hash160 (test_address 2)"
    by (simp add: test_address_def)
  have "\<forall>i::uint32. 2 < i \<and> i \<le> 3 \<longrightarrow> i = 3"
    by (auto simp: word_less_nat_alt word_le_nat_alt word_unat_eq_iff)
  with ne have h12: "\<forall>i. 2 < i \<and> i \<le> 3 \<longrightarrow> Hash160 (test_address i) \<noteq> Hash160 (test_address 2)"
    by blast
  have r: "map of_nat [unat (2::uint32)..<Suc (unat (3::uint32))] = [2, 3::uint32]"
    by (simp add: upt_rec)
  from initialize_walk_to_checkpoint [OF h1 h2 h3 h4 h5 h6 h7 h8 h9 h10 h11 h12] h1 h2 h3 h5 h10 ne
  show ?thesis
    unfolding r by (simp add: NewAddressPool_def test_pool_def test_wallet_def)
qed

subsection \<open>CloseAddressPools\<close>

lemma GetNewAddress_test_external:
  "GetNewAddress (test_wallet 10)
     (test_pool [EncodeAddress (test_address 4), EncodeAddress (test_address 5),
                 EncodeAddress (test_address 6)] 1 ExternalBranch 5) =
   (Returns (Inr (decoded (test_wallet 10) (EncodeAddress (test_address 5)))),
    test_pool [EncodeAddress (test_address 4), EncodeAddress (test_address 5),
               EncodeAddress (test_address 6)] 2 ExternalBranch 6,
    [LogInfof ''Get new address for branch %v returned %s (idx %v)'',
     CallNotifyReceived [decoded (test_wallet 10) (EncodeAddress (test_address 5))]])"
  by (simp add: model_defs)

lemma GetNewAddress_test_internal:
  "GetNewAddress (test_wallet 10)
     (test_pool [EncodeAddress (test_address 7), EncodeAddress (test_address 8),
                 EncodeAddress (test_address 9)] 0 InternalBranch 7) =
   (Returns (Inr (decoded (test_wallet 10) (EncodeAddress (test_address 7)))),
    test_pool [EncodeAddress (test_address 7), EncodeAddress (test_address 8),
               EncodeAddress (test_address 9)] 1 InternalBranch 8,
    [LogInfof ''Get new address for branch %v returned %s (idx %v)'',
     CallNotifyReceived [decoded (test_wallet 10) (EncodeAddress (test_address 7))]])"
  by (simp add: model_defs)

text \<open>
  Claim C6. When both pools are present, started and have their mutex, and the two
  \<open>GetNewAddress\<close> calls and the store succeed, \<open>CloseAddressPools\<close> hands out exactly one
  address of the external pool and one of the internal pool (one notification each, the
  cursor and the index of each pool advanced by one: the addresses at the two cursors)
  and then stores exactly this pair, once, as the next-to-use checkpoint.
\<close>

theorem CloseAddressPools_burns_one_each:
  assumes "internalPool ps = Some ip" and "externalPool ps = Some ep"
    and "started ip" and "started ep" and "mutex ip" and "mutex ep"
    and "GetNewAddress w ep = (Returns (Inr nextExtAddr), ep', evsE)"
    and "GetNewAddress w ip = (Returns (Inr nextIntAddr), ip', evsI)"
    and "StoreNextToUseAddresses w nextExtAddr nextIntAddr = None"
  shows "CloseAddressPools w ps =
           (Returns (), ps\<lparr>internalPool := Some ip', externalPool := Some ep'\<rparr>,
            [Lock InternalPool, Lock ExternalPool] @ evsE @ evsI @
            [CallStoreNextToUseAddresses nextExtAddr nextIntAddr,
             Unlock ExternalPool, Unlock InternalPool]) \<and>
         cursor ep' = cursor ep + 1 \<and> index ep' = index ep + 1 \<and>
         cursor ip' = cursor ip + 1 \<and> index ip' = index ip + 1 \<and>
         nextExtAddr = decoded w (addresses ep' ! nat (cursor ep)) \<and>
         nextIntAddr = decoded w (addresses ip' ! nat (cursor ip)) \<and>
         filter is_notify_event (snd (snd (CloseAddressPools w ps))) =
           [CallNotifyReceived [nextExtAddr], CallNotifyReceived [nextIntAddr]] \<and>
         filter is_store_event (snd (snd (CloseAddressPools w ps))) =
           [CallStoreNextToUseAddresses nextExtAddr nextIntAddr]"
proof -
  have c: "CloseAddressPools w ps =
           (Returns (), ps\<lparr>internalPool := Some ip', externalPool := Some ep'\<rparr>,
            [Lock InternalPool, Lock ExternalPool] @ evsE @ evsI @
            [CallStoreNextToUseAddresses nextExtAddr nextIntAddr,
             Unlock ExternalPool, Unlock InternalPool])"
    using assms by (simp add: CloseAddressPools_def)
  note e = GetNewAddress_Returns_Inr [OF assms(7)] and i = GetNewAddress_Returns_Inr [OF assms(8)]
  obtain e1 a1 evs1 where r1: "replenish w ep = (e1, a1, evs1)"
    by (cases "replenish w ep") auto
  obtain e2 a2 evs2 where r2: "replenish w ip = (e2, a2, evs2)"
    by (cases "replenish w ip") auto
  have "cursor ep' = cursor ep + 1 \<and> index ep' = index ep + 1"
    using e(2) r1 replenish_keeps [OF r1] by simp
  moreover have "cursor ip' = cursor ip + 1 \<and> index ip' = index ip + 1"
    using i(2) r2 replenish_keeps [OF r2] by simp
  moreover have "filter is_notify_event (snd (snd (CloseAddressPools w ps))) =
           [CallNotifyReceived [nextExtAddr], CallNotifyReceived [nextIntAddr]]"
    using c GetNewAddress_notify_events [OF assms(7)] GetNewAddress_notify_events [OF assms(8)]
    by simp
  moreover have "filter is_store_event (snd (snd (CloseAddressPools w ps))) =
           [CallStoreNextToUseAddresses nextExtAddr nextIntAddr]"
    using c GetNewAddress_no_mutex_events(2) [OF assms(7)]
      GetNewAddress_no_mutex_events(2) [OF assms(8)]
    by simp
  ultimately show ?thesis
    using c e(7) i(7) by simp
qed

theorem CloseAddressPools_burns_one_each_witness:
  "CloseAddressPools (test_wallet 10) test_pools =
     (Returns (),
      \<lparr>internalPool =
         Some (test_pool [EncodeAddress (test_address 7), EncodeAddress (test_address 8),
                          EncodeAddress (test_address 9)] 1 InternalBranch 8),
       externalPool =
         Some (test_pool [EncodeAddress (test_address 4), EncodeAddress (test_address 5),
                          EncodeAddress (test_address 6)] 2 ExternalBranch 6)\<rparr>,
      [Lock InternalPool, Lock ExternalPool,
       LogInfof ''Get new address for branch %v returned %s (idx %v)'',
       CallNotifyReceived [decoded (test_wallet 10) (EncodeAddress (test_address 5))],
       LogInfof ''Get new address for branch %v returned %s (idx %v)'',
       CallNotifyReceived [decoded (test_wallet 10) (EncodeAddress (test_address 7))],
       CallStoreNextToUseAddresses (decoded (test_wallet 10) (EncodeAddress (test_address 5)))
         (decoded (test_wallet 10) (EncodeAddress (test_address 7))),
       Unlock ExternalPool, Unlock InternalPool]) \<and>
   decoded (test_wallet 10) (EncodeAddress (test_address 5)) =
     Some \<lparr>EncodeAddress = EncodeAddress (test_address 5), Hash160 = [5]\<rparr>"
proof -
  let ?w = "test_wallet 10"
  let ?ip = "test_pool [EncodeAddress (test_address 7), EncodeAddress (test_address 8),
                 EncodeAddress (test_address 9)] 0 InternalBranch 7"
  let ?ep = "test_pool [EncodeAddress (test_address 4), EncodeAddress (test_address 5),
                 EncodeAddress (test_address 6)] 1 ExternalBranch 5"
  have h1: "internalPool test_pools = Some ?ip" and h2: "externalPool test_pools = Some ?ep"
    by (simp_all add: test_pools_def)
  have h3: "started ?ip" and h4: "started ?ep" and h5: "mutex ?ip" and h6: "mutex ?ep"
    by (simp_all add: test_pool_def)
  have h9: "StoreNextToUseAddresses ?w (decoded ?w (EncodeAddress (test_address 5)))
              (decoded ?w (EncodeAddress (test_address 7))) = None"
    by (simp add: test_wallet_def)
  have d: "decoded ?w (EncodeAddress (test_address 5)) =
     Some \<lparr>EncodeAddress = EncodeAddress (test_address 5), Hash160 = [5]\<rparr>"
    by (simp add: decoded_def test_wallet_def test_address_def)
  from CloseAddressPools_burns_one_each
    [OF h1 h2 h3 h4 h5 h6 GetNewAddress_test_external GetNewAddress_test_internal h9] d
  show ?thesis
    by (simp add: test_pools_def)
qed

text \<open>
  Claim C8, as stated, fails: the first lock taken is that of the internal pool, the
  second that of the external pool.
\<close>

theorem CloseAddressPools_lock_order_counterexample:
  "filter is_mutex_event (snd (snd (CloseAddressPools (test_wallet 10) test_pools))) =
     [Lock InternalPool, Lock ExternalPool, Unlock ExternalPool, Unlock InternalPool] \<and>
   take 2 (snd (snd (CloseAddressPools (test_wallet 10) test_pools))) \<noteq>
     [Lock ExternalPool, Lock InternalPool]"
  by (simp add: CloseAddressPools_def test_pools_def GetNewAddress_test_external
      GetNewAddress_test_internal)

lemma CloseAddressPools_mutex_events:
  assumes "internalPool ps = Some ip" and "externalPool ps = Some ep"
    and "started ip" and "started ep" and "mutex ip" and "mutex ep"
  shows "\<exists>mid. snd (snd (CloseAddressPools w ps)) =
            [Lock InternalPool, Lock ExternalPool] @ mid @
            [Unlock ExternalPool, Unlock InternalPool] \<and>
          filter is_mutex_event mid = []"
proof -
  obtain r1 ep1 evs1 where g1: "GetNewAddress w ep = (r1, ep1, evs1)"
    by (cases "GetNewAddress w ep") auto
  obtain r2 ip1 evs2 where g2: "GetNewAddress w ip = (r2, ip1, evs2)"
    by (cases "GetNewAddress w ip") auto
  note m1 = GetNewAddress_no_mutex_events(1) [OF g1]
    and m2 = GetNewAddress_no_mutex_events(1) [OF g2]
  show ?thesis
  proof (cases r1)
    case (Panics msg)
    with assms g1 m1 show ?thesis
      by (simp add: CloseAddressPools_def)
  next
    case (Returns x)
    show ?thesis
    proof (cases x)
      case (Inl err)
      with Returns assms g1 m1 show ?thesis
        by (simp add: CloseAddressPools_def)
    next
      case (Inr nextExtAddr)
      show ?thesis
      proof (cases r2)
        case (Panics msg)
        with Inr Returns assms g1 g2 m1 m2 show ?thesis
          by (simp add: CloseAddressPools_def)
      next
        case r2: (Returns y)
        show ?thesis
        proof (cases y)
          case (Inl err)
          with r2 Inr Returns assms g1 g2 m1 m2 show ?thesis
            by (simp add: CloseAddressPools_def)
        next
          case i: (Inr nextIntAddr)
          with r2 Inr Returns assms g1 g2 m1 m2 show ?thesis
            by (cases "StoreNextToUseAddresses w nextExtAddr nextIntAddr")
               (simp_all add: CloseAddressPools_def)
        qed
      qed
    qed
  qed
qed

subsection \<open>The order of the locks\<close>

lemma thread_step_ordered:
  assumes "lock_ordered (fst t) (snd t)" and "thread_step ts t = Some t'"
  shows "lock_ordered (fst t') (snd t')"
proof (cases t)
  case (Pair held evs)
  show ?thesis
  proof (cases evs)
    case Nil
    with Pair assms show ?thesis by simp
  next
    case (Cons e rest)
    with Pair assms show ?thesis
      by (cases e) (auto split: if_splits)
  qed
qed

lemma schedule_ordered:
  assumes "\<forall>t \<in> set ts. lock_ordered (fst t) (snd t)" and "schedule sched ts = Some ts'"
  shows "\<forall>t \<in> set ts'. lock_ordered (fst t) (snd t)"
  using assms
proof (induction sched arbitrary: ts)
  case Nil
  then show ?case by simp
next
  case (Cons i sched)
  from Cons.prems(2) obtain t where i: "i < length ts"
    and st: "thread_step ts (ts ! i) = Some t"
    and rest: "schedule sched (ts[i := t]) = Some ts'"
    by (auto split: if_splits option.splits)
  from Cons.prems(1) i have "lock_ordered (fst (ts ! i)) (snd (ts ! i))" by simp
  from thread_step_ordered [OF this st] Cons.prems(1)
  have "\<forall>u \<in> set (ts[i := t]). lock_ordered (fst u) (snd u)"
    using set_update_subset_insert [of ts i t] by auto
  from Cons.IH [OF this rest] show ?case .
qed

lemma blocked_thread:
  assumes "thread_step ts t = None" and "snd t \<noteq> []" and "lock_ordered (fst t) (snd t)"
  shows "\<exists>l rest. snd t = Lock l # rest \<and> l \<notin> set (fst t) \<and>
           (l = InternalPool \<longrightarrow> ExternalPool \<notin> set (fst t)) \<and>
           (\<exists>u \<in> set ts. l \<in> set (fst u))"
proof (cases t)
  case (Pair held evs)
  with assms(2) obtain e rest where evs: "evs = e # rest" by (cases evs) auto
  with Pair assms show ?thesis
    by (cases e) (auto simp: free_def split: if_splits)
qed

lemma holder_unfinished:
  assumes "lock_ordered (fst u) (snd u)" and "l \<in> set (fst u)"
  shows "snd u \<noteq> []"
  using assms by (cases u) auto

lemma pool_id_other: "l \<noteq> ExternalPool \<Longrightarrow> l = InternalPool"
  by (cases l) auto

lemma ordered_not_deadlocked:
  assumes "\<forall>t \<in> set ts. lock_ordered (fst t) (snd t)"
  shows "\<not> deadlocked ts"
proof
  assume d: "deadlocked ts"
  then have stuck: "\<forall>t \<in> set ts. thread_step ts t = None"
    by (simp add: deadlocked_def)
  have waits: "\<exists>l rest. snd t = Lock l # rest \<and> l \<notin> set (fst t) \<and>
           (l = InternalPool \<longrightarrow> ExternalPool \<notin> set (fst t)) \<and>
           (\<exists>u \<in> set ts. l \<in> set (fst u))"
    if "t \<in> set ts" "snd t \<noteq> []" for t
  proof (rule blocked_thread)
    from stuck that show "thread_step ts t = None" by simp
    from that show "snd t \<noteq> []" by simp
    from assms that show "lock_ordered (fst t) (snd t)" by simp
  qed
  have no_ext: False if u: "u \<in> set ts" and h: "ExternalPool \<in> set (fst u)" for u
  proof -
    from holder_unfinished [of u ExternalPool] assms u h have "snd u \<noteq> []" by blast
    from waits [OF u this] obtain l where "l \<notin> set (fst u)"
      and "l = InternalPool \<longrightarrow> ExternalPool \<notin> set (fst u)" by blast
    with h pool_id_other [of l] show False by auto
  qed
  from d obtain t where t: "t \<in> set ts" "snd t \<noteq> []"
    by (auto simp: deadlocked_def)
  from waits [OF t] obtain l u where u: "u \<in> set ts" "l \<in> set (fst u)" by blast
  show False
  proof (cases l)
    case ExternalPool
    with u no_ext show False by blast
  next
    case InternalPool
    from holder_unfinished [of u l] assms u have "snd u \<noteq> []" by blast
    from waits [OF u(1) this] obtain l' v where l': "l' \<notin> set (fst u)"
      and v: "v \<in> set ts" "l' \<in> set (fst v)" by blast
    from l' u(2) InternalPool have "l' = ExternalPool"
      using pool_id_other [of l'] by auto
    with v no_ext show False by blast
  qed
qed

lemma lock_ordered_skip:
  assumes "filter is_mutex_event mid = []"
  shows "lock_ordered held (mid @ evs) = lock_ordered held evs"
  using assms
proof (induction mid)
  case Nil
  then show ?case by simp
next
  case (Cons e mid)
  then show ?case by (cases e) (auto split: if_splits)
qed

lemma lock_ordered_both:
  assumes "filter is_mutex_event mid = []"
  shows "lock_ordered [] ([Lock InternalPool, Lock ExternalPool] @ mid @
                          [Unlock ExternalPool, Unlock InternalPool])"
  using lock_ordered_skip [OF assms, of "[ExternalPool, InternalPool]"
      "[Unlock ExternalPool, Unlock InternalPool]"]
  by simp

lemma lock_ordered_one:
  assumes "filter is_mutex_event mid = []"
  shows "lock_ordered [] ([Lock l] @ mid @ [Unlock l])"
  using lock_ordered_skip [OF assms, of "[l]" "[Unlock l]"]
  by simp

lemma GetNewAddressExternal_ordered:
  "lock_ordered [] (snd (snd (GetNewAddressExternal w ps)))"
proof -
  have "lock_ordered [] ([Lock ExternalPool] @ evs @ [Unlock ExternalPool])"
    if "GetNewAddress w ep = (res, ep1, evs)" for ep res ep1 evs
    using lock_ordered_one [OF GetNewAddress_no_mutex_events(1) [OF that]] .
  then show ?thesis
    by (auto simp: GetNewAddressExternal_def split: option.splits prod.splits)
qed

lemma GetNewAddressInternal_ordered:
  "lock_ordered [] (snd (snd (GetNewAddressInternal w ps)))"
proof -
  have "lock_ordered [] ([Lock InternalPool] @ evs @ [Unlock InternalPool])"
    if "GetNewAddress w ip = (res, ip1, evs)" for ip res ip1 evs
    using lock_ordered_one [OF GetNewAddress_no_mutex_events(1) [OF that]] .
  then show ?thesis
    by (auto simp: GetNewAddressInternal_def split: option.splits prod.splits)
qed

lemma reversed_order_deadlocks:
  "schedule [0, 1]
     (map (Pair [])
        [[Lock InternalPool, Lock ExternalPool, Unlock ExternalPool, Unlock InternalPool],
         [Lock ExternalPool, Lock InternalPool, Unlock InternalPool, Unlock ExternalPool]]) =
   Some [([InternalPool], [Lock ExternalPool, Unlock ExternalPool, Unlock InternalPool]),
         ([ExternalPool], [Lock InternalPool, Unlock InternalPool, Unlock ExternalPool])] \<and>
   deadlocked
     [([InternalPool], [Lock ExternalPool, Unlock ExternalPool, Unlock InternalPool]),
      ([ExternalPool], [Lock InternalPool, Unlock InternalPool, Unlock ExternalPool])]"
  by (simp add: free_def deadlocked_def)

text \<open>
  Claim C8, amended. Whenever \<open>CloseAddressPools\<close> passes its guards (both pools present,
  started and with a mutex), its first two events are the lock of the internal pool and
  then the lock of the external pool, its last two the unlock of the external pool and then
  of the internal pool, on every way out (also a panic), and it touches no mutex in
  between: the order is fixed, internal first. Hence it cannot deadlock against other
  callers that keep this order (that take the internal lock only while not holding the
  external one, as a second \<open>CloseAddressPools\<close>, \<open>GetNewAddressExternal\<close> and
  \<open>GetNewAddressInternal\<close> do): however the threads are scheduled, the state reached
  is not a deadlock.
\<close>

theorem CloseAddressPools_lock_order:
  assumes "internalPool ps = Some ip" and "externalPool ps = Some ep"
    and "started ip" and "started ep" and "mutex ip" and "mutex ep"
  shows "(\<exists>mid. snd (snd (CloseAddressPools w ps)) =
            [Lock InternalPool, Lock ExternalPool] @ mid @
            [Unlock ExternalPool, Unlock InternalPool] \<and>
          filter is_mutex_event mid = []) \<and>
         (\<forall>others sched ts.
            (\<forall>evs \<in> set others. lock_ordered [] evs) \<and>
            schedule sched (map (Pair []) (snd (snd (CloseAddressPools w ps)) # others)) = Some ts
            \<longrightarrow> \<not> deadlocked ts)"
proof (intro conjI allI impI)
  show m: "\<exists>mid. snd (snd (CloseAddressPools w ps)) =
            [Lock InternalPool, Lock ExternalPool] @ mid @
            [Unlock ExternalPool, Unlock InternalPool] \<and>
          filter is_mutex_event mid = []"
    using CloseAddressPools_mutex_events [OF assms] .
  fix others sched ts
  assume h: "(\<forall>evs \<in> set others. lock_ordered [] evs) \<and>
       schedule sched (map (Pair []) (snd (snd (CloseAddressPools w ps)) # others)) = Some ts"
  from m lock_ordered_both have "lock_ordered [] (snd (snd (CloseAddressPools w ps)))"
    by auto
  with h have "\<forall>t \<in> set (map (Pair []) (snd (snd (CloseAddressPools w ps)) # others)).
                 lock_ordered (fst t) (snd t)"
    by auto
  from schedule_ordered [OF this] h have "\<forall>t \<in> set ts. lock_ordered (fst t) (snd t)"
    by blast
  then show "\<not> deadlocked ts"
    by (rule ordered_not_deadlocked)
qed

lemma CloseAddressPools_test:
  "snd (snd (CloseAddressPools (test_wallet 10) test_pools)) =
     [Lock InternalPool, Lock ExternalPool,
      LogInfof ''Get new address for branch %v returned %s (idx %v)'',
      CallNotifyReceived [decoded (test_wallet 10) (EncodeAddress (test_address 5))],
      LogInfof ''Get new address for branch %v returned %s (idx %v)'',
      CallNotifyReceived [decoded (test_wallet 10) (EncodeAddress (test_address 7))],
      CallStoreNextToUseAddresses (decoded (test_wallet 10) (EncodeAddress (test_address 5)))
        (decoded (test_wallet 10) (EncodeAddress (test_address 7))),
      Unlock ExternalPool, Unlock InternalPool]"
  by (simp add: CloseAddressPools_def test_pools_def GetNewAddress_test_external
      GetNewAddress_test_internal)
     (simp add: test_wallet_def)

lemma GetNewAddressExternal_test:
  "snd (snd (GetNewAddressExternal (test_wallet 10) test_pools)) =
     [Lock ExternalPool,
      LogInfof ''Get new address for branch %v returned %s (idx %v)'',
      CallNotifyReceived [decoded (test_wallet 10) (EncodeAddress (test_address 5))],
      Unlock ExternalPool]"
  by (simp add: GetNewAddressExternal_def test_pools_def GetNewAddress_test_external)

theorem CloseAddressPools_lock_order_witness:
  "internalPool test_pools =
     Some (test_pool [EncodeAddress (test_address 7), EncodeAddress (test_address 8),
                      EncodeAddress (test_address 9)] 0 InternalBranch 7) \<and>
   externalPool test_pools =
     Some (test_pool [EncodeAddress (test_address 4), EncodeAddress (test_address 5),
                      EncodeAddress (test_address 6)] 1 ExternalBranch 5) \<and>
   lock_ordered [] (snd (snd (GetNewAddressExternal (test_wallet 10) test_pools))) \<and>
   schedule [0, 0, 0]
     (map (Pair []) (snd (snd (CloseAddressPools (test_wallet 10) test_pools)) #
                     [snd (snd (GetNewAddressExternal (test_wallet 10) test_pools))])) =
     Some [([ExternalPool, InternalPool],
            [CallNotifyReceived [decoded (test_wallet 10) (EncodeAddress (test_address 5))],
             LogInfof ''Get new address for branch %v returned %s (idx %v)'',
             CallNotifyReceived [decoded (test_wallet 10) (EncodeAddress (test_address 7))],
             CallStoreNextToUseAddresses
               (decoded (test_wallet 10) (EncodeAddress (test_address 5)))
               (decoded (test_wallet 10) (EncodeAddress (test_address 7))),
             Unlock ExternalPool, Unlock InternalPool]),
           ([], [Lock ExternalPool,
                 LogInfof ''Get new address for branch %v returned %s (idx %v)'',
                 CallNotifyReceived [decoded (test_wallet 10) (EncodeAddress (test_address 5))],
                 Unlock ExternalPool])] \<and>
   \<not> deadlocked
     [([ExternalPool, InternalPool],
            [CallNotifyReceived [decoded (test_wallet 10) (EncodeAddress (test_address 5))],
             LogInfof ''Get new address for branch %v returned %s (idx %v)'',
             CallNotifyReceived [decoded (test_wallet 10) (EncodeAddress (test_address 7))],
             CallStoreNextToUseAddresses
               (decoded (test_wallet 10) (EncodeAddress (test_address 5)))
               (decoded (test_wallet 10) (EncodeAddress (test_address 7))),
             Unlock ExternalPool, Unlock InternalPool]),
           ([], [Lock ExternalPool,
                 LogInfof ''Get new address for branch %v returned %s (idx %v)'',
                 CallNotifyReceived [decoded (test_wallet 10) (EncodeAddress (test_address 5))],
                 Unlock ExternalPool])]"
proof -
  let ?w = "test_wallet 10"
  let ?ip = "test_pool [EncodeAddress (test_address 7), EncodeAddress (test_address 8),
                 EncodeAddress (test_address 9)] 0 InternalBranch 7"
  let ?ep = "test_pool [EncodeAddress (test_address 4), EncodeAddress (test_address 5),
                 EncodeAddress (test_address 6)] 1 ExternalBranch 5"
  let ?ts = "[([ExternalPool, InternalPool],
            [CallNotifyReceived [decoded ?w (EncodeAddress (test_address 5))],
             LogInfof ''Get new address for branch %v returned %s (idx %v)'',
             CallNotifyReceived [decoded ?w (EncodeAddress (test_address 7))],
             CallStoreNextToUseAddresses
               (decoded ?w (EncodeAddress (test_address 5)))
               (decoded ?w (EncodeAddress (test_address 7))),
             Unlock ExternalPool, Unlock InternalPool]),
           ([], [Lock ExternalPool,
                 LogInfof ''Get new address for branch %v returned %s (idx %v)'',
                 CallNotifyReceived [decoded ?w (EncodeAddress (test_address 5))],
                 Unlock ExternalPool])]"
  have h1: "internalPool test_pools = Some ?ip" and h2: "externalPool test_pools = Some ?ep"
    by (simp_all add: test_pools_def)
  have h3: "started ?ip" and h4: "started ?ep" and h5: "mutex ?ip" and h6: "mutex ?ep"
    by simp_all
  have o: "\<forall>evs \<in> set [snd (snd (GetNewAddressExternal ?w test_pools))]. lock_ordered [] evs"
    by (simp add: GetNewAddressExternal_ordered)
  have s: "schedule [0, 0, 0]
     (map (Pair []) (snd (snd (CloseAddressPools ?w test_pools)) #
                     [snd (snd (GetNewAddressExternal ?w test_pools))])) = Some ?ts"
    by (simp add: CloseAddressPools_test GetNewAddressExternal_test free_def)
  from CloseAddressPools_lock_order [OF h1 h2 h3 h4 h5 h6, of ?w] o s
  have "\<not> deadlocked ?ts"
    by blast
  with h1 h2 o s show ?thesis
    by simp
qed

subsection \<open>Batches\<close>

lemma GetNewAddress_success_step:
  assumes "GetNewAddress w a = (Returns (Inr r), a', evs)"
  shows "started a \<and> started a' \<and> 0 \<le> cursor a \<and> cursor a' = cursor a + 1 \<and>
         index a' = index a + 1 \<and> cursor a' \<le> int (length (addresses a')) \<and>
         branch a' = branch a \<and>
         addresses a' = addresses a @ drop (length (addresses a)) (addresses a') \<and>
         r = decoded w (addresses a' ! nat (cursor a))"
proof -
  obtain e a1 evs1 where rp: "replenish w a = (e, a1, evs1)"
    by (cases "replenish w a") auto
  from replenish_appends [OF rp] obtain new where n: "addresses a1 = addresses a @ new" ..
  note g = GetNewAddress_Returns_Inr [OF assms]
  from g(2) rp n have "addresses a' = addresses a @ new" by simp
  then have "addresses a' = addresses a @ drop (length (addresses a)) (addresses a')" by simp
  with g rp replenish_keeps [OF rp] show ?thesis by simp
qed

lemma GetNewAddresses_facts:
  assumes "GetNewAddresses ws a = Some (rets, a1)"
  shows "length rets = length ws \<and>
         cursor a1 = cursor a + int (length ws) \<and>
         index a1 = index a + of_nat (length ws) \<and>
         addresses a1 = addresses a @ supplied (map OpGetNewAddress ws) a \<and>
         (ws \<noteq> [] \<longrightarrow> started a \<and> 0 \<le> cursor a \<and> cursor a1 \<le> int (length (addresses a1)) \<and>
            hd rets = decoded (hd ws) (addresses a1 ! nat (cursor a))) \<and>
         (\<forall>r \<in> set rets. \<exists>w \<in> set ws. \<exists>s \<in> set (take (nat (cursor a1)) (addresses a1)).
            r = decoded w s)"
  using assms
proof (induction ws arbitrary: a rets)
  case Nil
  then show ?case by simp
next
  case (Cons w ws)
  from Cons.prems obtain r a' evs rest where
    g: "GetNewAddress w a = (Returns (Inr r), a', evs)"
    and rest: "GetNewAddresses ws a' = Some (rest, a1)"
    and rets: "rets = r # rest"
    by (auto split: prod.splits outcome.splits sum.splits option.splits)
  note s = GetNewAddress_success_step [OF g]
  note ih = Cons.IH [OF rest]
  have e: "fst (exec (OpGetNewAddress w) a) = a'"
    using g by simp
  from ih obtain new where a1: "addresses a1 = addresses a' @ new" by blast
  from s have lt: "nat (cursor a) < length (addresses a')" by auto
  have nth: "addresses a1 ! nat (cursor a) = addresses a' ! nat (cursor a)"
    using a1 lt by (simp add: nth_append)
  have c1: "cursor a1 = cursor a + 1 + int (length ws)"
    using ih s by simp
  have le: "cursor a1 \<le> int (length (addresses a1))"
  proof (cases "ws = []")
    case True
    with rest s show ?thesis by simp
  next
    case False
    with ih show ?thesis by blast
  qed
  have mem: "addresses a' ! nat (cursor a) \<in> set (take (nat (cursor a1)) (addresses a1))"
  proof -
    have "nat (cursor a) < nat (cursor a1)" using c1 s by simp
    moreover have "nat (cursor a1) \<le> length (addresses a1)" using le by simp
    ultimately have "take (nat (cursor a1)) (addresses a1) ! nat (cursor a)
                      = addresses a1 ! nat (cursor a)"
      and "nat (cursor a) < length (take (nat (cursor a1)) (addresses a1))"
      by simp_all
    then show ?thesis using nth by (metis nth_mem)
  qed
  have "length rets = length (w # ws)" using ih rets by simp
  moreover have "cursor a1 = cursor a + int (length (w # ws))" using c1 by simp
  moreover have "index a1 = index a + of_nat (length (w # ws))" using ih s by simp
  moreover have "addresses a1 = addresses a @ supplied (map OpGetNewAddress (w # ws)) a"
    using ih s e by simp
  moreover have "started a \<and> 0 \<le> cursor a \<and> cursor a1 \<le> int (length (addresses a1)) \<and>
            hd rets = decoded (hd (w # ws)) (addresses a1 ! nat (cursor a))"
    using s le rets nth by simp
  moreover have "\<forall>r \<in> set rets. \<exists>w' \<in> set (w # ws).
                   \<exists>s \<in> set (take (nat (cursor a1)) (addresses a1)). r = decoded w' s"
  proof
    fix x assume "x \<in> set rets"
    with rets consider "x = r" | "x \<in> set rest" by auto
    then show "\<exists>w' \<in> set (w # ws).
                   \<exists>s \<in> set (take (nat (cursor a1)) (addresses a1)). x = decoded w' s"
    proof cases
      case 1
      with s mem show ?thesis by auto
    next
      case 2
      with ih show ?thesis by auto
    qed
  qed
  ultimately show ?case by blast
qed

lemma GetNewAddresses_test:
  "GetNewAddresses [test_wallet 10, test_wallet 10]
     (test_pool [EncodeAddress (test_address 4), EncodeAddress (test_address 5),
                 EncodeAddress (test_address 6)] 0 ExternalBranch 4) =
   Some ([decoded (test_wallet 10) (EncodeAddress (test_address 4)),
          decoded (test_wallet 10) (EncodeAddress (test_address 5))],
         test_pool [EncodeAddress (test_address 4), EncodeAddress (test_address 5),
                    EncodeAddress (test_address 6)] 2 ExternalBranch 6)"
  by (simp add: model_defs)

text \<open>
  Claim C2. For a started pool at the start of a batch (\<open>cursor\<close> 0, as \<open>initialize\<close>,
  \<open>BatchFinish\<close> and \<open>BatchRollback\<close> leave it) and every \<open>n\<close>: \<open>n\<close> successful
  \<open>GetNewAddress\<close> calls advance \<open>index\<close> by \<open>n\<close> (modulo \<open>2^32\<close>), \<open>BatchRollback\<close> then
  takes exactly \<open>n\<close> off again, which is the value before the batch, and sets \<open>cursor\<close> to
  0 without touching the window; and a next \<open>GetNewAddress\<close> that succeeds hands out the
  window's first string again, the one the first call of the batch has handed out (the same
  address, \<open>DecodeAddress\<close> being the same function in both calls).
\<close>

theorem rollback_restores_batch:
  assumes "started a" and "cursor a = 0"
    and "GetNewAddresses ws a = Some (rets, a1)"
  shows "index a1 = index a + of_nat (length ws) \<and>
         index (fst (BatchRollback a1)) = index a1 - of_nat (length ws) \<and>
         index (fst (BatchRollback a1)) = index a \<and>
         cursor (fst (BatchRollback a1)) = 0 \<and>
         addresses (fst (BatchRollback a1)) = addresses a1 \<and>
         (\<forall>w r a3 evs.
            ws \<noteq> [] \<and> GetNewAddress w (fst (BatchRollback a1)) = (Returns (Inr r), a3, evs) \<longrightarrow>
              r = decoded w (addresses a1 ! 0) \<and>
              hd rets = decoded (hd ws) (addresses a1 ! 0) \<and>
              (DecodeAddress w = DecodeAddress (hd ws) \<longrightarrow> r = hd rets))"
proof -
  note f = GetNewAddresses_facts [OF assms(3)]
  have c: "cursor a1 = int (length ws)" using f assms(2) by simp
  have i: "index a1 = index a + of_nat (length ws)" using f by simp
  have rb: "fst (BatchRollback a1) = a1\<lparr>index := index a, cursor := 0\<rparr>"
    using c i by (simp add: BatchRollback_def)
  have next_same: "r = decoded w (addresses a1 ! 0) \<and>
              hd rets = decoded (hd ws) (addresses a1 ! 0) \<and>
              (DecodeAddress w = DecodeAddress (hd ws) \<longrightarrow> r = hd rets)"
    if ne: "ws \<noteq> []" and g: "GetNewAddress w (fst (BatchRollback a1)) = (Returns (Inr r), a3, evs)"
    for w r a3 evs
  proof -
    note s = GetNewAddress_success_step [OF g]
    from ne f assms(2) have pos: "0 < length (addresses a1)" and
      h: "hd rets = decoded (hd ws) (addresses a1 ! 0)"
      using c by auto
    from s rb have "addresses a3 = addresses a1 @ drop (length (addresses a1)) (addresses a3)"
      and "r = decoded w (addresses a3 ! 0)" by simp_all
    then have "r = decoded w (addresses a1 ! 0)"
      using pos by (metis nth_append)
    with h show ?thesis by (simp add: decoded_def)
  qed
  from rb i next_same show ?thesis by auto
qed

theorem rollback_restores_batch_witness:
  "GetNewAddresses [test_wallet 10, test_wallet 10]
     (test_pool [EncodeAddress (test_address 4), EncodeAddress (test_address 5),
                 EncodeAddress (test_address 6)] 0 ExternalBranch 4) =
   Some ([decoded (test_wallet 10) (EncodeAddress (test_address 4)),
          decoded (test_wallet 10) (EncodeAddress (test_address 5))],
         test_pool [EncodeAddress (test_address 4), EncodeAddress (test_address 5),
                    EncodeAddress (test_address 6)] 2 ExternalBranch 6) \<and>
   fst (BatchRollback
          (test_pool [EncodeAddress (test_address 4), EncodeAddress (test_address 5),
                      EncodeAddress (test_address 6)] 2 ExternalBranch 6)) =
     test_pool [EncodeAddress (test_address 4), EncodeAddress (test_address 5),
                EncodeAddress (test_address 6)] 0 ExternalBranch 4 \<and>
   GetNewAddress (test_wallet 10)
     (test_pool [EncodeAddress (test_address 4), EncodeAddress (test_address 5),
                 EncodeAddress (test_address 6)] 0 ExternalBranch 4) =
     (Returns (Inr (decoded (test_wallet 10) (EncodeAddress (test_address 4)))),
      test_pool [EncodeAddress (test_address 4), EncodeAddress (test_address 5),
                 EncodeAddress (test_address 6)] 1 ExternalBranch 5,
      [LogInfof ''Get new address for branch %v returned %s (idx %v)'',
       CallNotifyReceived [decoded (test_wallet 10) (EncodeAddress (test_address 4))]]) \<and>
   decoded (test_wallet 10) (EncodeAddress (test_address 4)) =
     Some \<lparr>EncodeAddress = EncodeAddress (test_address 4), Hash160 = [4]\<rparr>"
proof -
  let ?w = "test_wallet 10"
  let ?win = "[EncodeAddress (test_address 4), EncodeAddress (test_address 5),
               EncodeAddress (test_address 6)]"
  have h1: "started (test_pool ?win 0 ExternalBranch 4)"
    and h2: "cursor (test_pool ?win 0 ExternalBranch 4) = 0"
    by simp_all
  note t = rollback_restores_batch [OF h1 h2 GetNewAddresses_test]
  have "index (fst (BatchRollback (test_pool ?win 2 ExternalBranch 6))) = 4"
    and "cursor (fst (BatchRollback (test_pool ?win 2 ExternalBranch 6))) = 0"
    and "addresses (fst (BatchRollback (test_pool ?win 2 ExternalBranch 6))) = ?win"
    using t by simp_all
  then have rb: "fst (BatchRollback (test_pool ?win 2 ExternalBranch 6)) =
                   test_pool ?win 0 ExternalBranch 4"
    by (simp add: BatchRollback_def test_pool_def)
  have g: "GetNewAddress ?w (test_pool ?win 0 ExternalBranch 4) =
     (Returns (Inr (decoded ?w (EncodeAddress (test_address 4)))),
      test_pool ?win 1 ExternalBranch 5,
      [LogInfof ''Get new address for branch %v returned %s (idx %v)'',
       CallNotifyReceived [decoded ?w (EncodeAddress (test_address 4))]])"
    by (simp add: model_defs)
  have d: "decoded ?w (EncodeAddress (test_address 4)) =
     Some \<lparr>EncodeAddress = EncodeAddress (test_address 4), Hash160 = [4]\<rparr>"
    by (simp add: decoded_def test_wallet_def test_address_def)
  from GetNewAddresses_test rb g d show ?thesis
    by (intro conjI)
qed

lemma BatchFinish_pool:
  assumes "0 \<le> cursor a"
  shows "fst (snd (BatchFinish w a)) =
           a\<lparr>addresses := drop (nat (cursor a)) (addresses a), cursor := 0\<rparr>"
  using assms
  by (auto simp: BatchFinish_def Let_def split: sum.splits option.splits prod.splits)

lemma exec_started:
  assumes "started a"
  shows "started (fst (exec x a))"
proof (cases x)
  case (OpInitialize br w)
  with assms show ?thesis by (simp add: initialize_def)
next
  case (OpGetNewAddress w)
  obtain res a' evs where g: "GetNewAddress w a = (res, a', evs)"
    by (cases "GetNewAddress w a") auto
  obtain e a1 evs1 where r: "replenish w a = (e, a1, evs1)"
    by (cases "replenish w a") auto
  from g r replenish_keeps [OF r] assms have "started a'"
    by (auto simp: GetNewAddress_def Let_def split: option.splits if_splits)
  with OpGetNewAddress g show ?thesis
    by (auto split: outcome.splits sum.splits)
next
  case (OpBatchFinish w)
  with assms show ?thesis
    by (auto simp: BatchFinish_def Let_def split: prod.splits sum.splits)
next
  case OpBatchRollback
  with assms show ?thesis by (simp add: BatchRollback_def)
qed

lemma GetNewAddress_window_grows:
  assumes "GetNewAddress w a = (res, a', evs)"
  shows "addresses a' = addresses a @ drop (length (addresses a)) (addresses a')"
proof -
  obtain e a1 evs1 where r: "replenish w a = (e, a1, evs1)"
    by (cases "replenish w a") auto
  from replenish_appends [OF r] obtain new where n: "addresses a1 = addresses a @ new" ..
  from assms r n have "addresses a' = addresses a \<or> addresses a' = addresses a @ new"
    by (auto simp: GetNewAddress_def Let_def split: option.splits if_splits)
  then show ?thesis by auto
qed

lemma exec_window:
  assumes "started a"
  shows "set (addresses (fst (exec x a)) @ supplied xs (fst (exec x a)))
           \<subseteq> set (addresses a @ supplied (x # xs) a)"
proof (cases x)
  case (OpInitialize br w)
  with assms show ?thesis by (simp add: initialize_def)
next
  case (OpGetNewAddress w)
  obtain res a' evs where g: "GetNewAddress w a = (res, a', evs)"
    by (cases "GetNewAddress w a") auto
  then have e: "fst (exec (OpGetNewAddress w) a) = a'"
    by (auto split: outcome.splits sum.splits)
  from GetNewAddress_window_grows [OF g] have
    "set (addresses a') = set (addresses a) \<union> set (drop (length (addresses a)) (addresses a'))"
    by (metis set_append)
  with OpGetNewAddress e show ?thesis by auto
next
  case (OpBatchFinish w)
  have "set (addresses (fst (snd (BatchFinish w a)))) \<subseteq> set (addresses a)"
    by (auto simp: BatchFinish_def Let_def split: prod.splits sum.splits dest: in_set_dropD)
  with OpBatchFinish show ?thesis by auto
next
  case OpBatchRollback
  then show ?thesis by (simp add: BatchRollback_def)
qed

lemma exec_returns:
  assumes "r \<in> set (snd (exec x a))"
  shows "\<exists>w \<in> set (allocating_wallets (x # xs)). \<exists>s \<in> set (addresses (fst (exec x a))).
           r = decoded w s"
proof (cases x)
  case (OpGetNewAddress w)
  with assms obtain a' evs where g: "GetNewAddress w a = (Returns (Inr r), a', evs)"
    by (auto split: prod.splits outcome.splits sum.splits)
  note s = GetNewAddress_success_step [OF g]
  then have "nat (cursor a) < length (addresses a')" by auto
  then have "addresses a' ! nat (cursor a) \<in> set (addresses a')" by simp
  with OpGetNewAddress g s show ?thesis by auto
qed (use assms in auto)

lemma allocating_wallets_Cons: "set (allocating_wallets xs) \<subseteq> set (allocating_wallets (x # xs))"
  by (cases x) auto

lemma run_returns:
  assumes "started a" and "r \<in> set (snd (run xs a))"
  shows "\<exists>w \<in> set (allocating_wallets xs). \<exists>s \<in> set (addresses a @ supplied xs a).
           r = decoded w s"
  using assms
proof (induction xs arbitrary: a)
  case Nil
  then show ?case by simp
next
  case (Cons x xs)
  let ?a' = "fst (exec x a)"
  note w = exec_window [OF Cons.prems(1), of x xs]
  from Cons.prems(2) consider "r \<in> set (snd (exec x a))" | "r \<in> set (snd (run xs ?a'))"
    by (auto split: prod.splits)
  then show ?case
  proof cases
    case 1
    from exec_returns [OF 1, of xs] w show ?thesis by auto
  next
    case 2
    from Cons.IH [OF exec_started [OF Cons.prems(1)] 2] obtain w' s where
      "w' \<in> set (allocating_wallets xs)" "s \<in> set (addresses ?a' @ supplied xs ?a')"
      "r = decoded w' s" by blast
    with w allocating_wallets_Cons [of xs x] show ?thesis by blast
  qed
qed

lemma distinct_map_take_drop:
  assumes "distinct (map f (xs @ zs))" and "s \<in> set (take k xs)" and "t \<in> set (drop k xs @ zs)"
  shows "f s \<noteq> f t"
proof -
  have "xs @ zs = take k xs @ (drop k xs @ zs)" by simp
  with assms(1) have "distinct (map f (take k xs @ (drop k xs @ zs)))" by simp
  then have "f ` set (take k xs) \<inter> f ` set (drop k xs @ zs) = {}"
    by (simp only: map_append distinct_append set_map set_append image_Un)
  with assms(2,3) show ?thesis by blast
qed

text \<open>
  Claim C1. For every started pool (with a cursor that is not negative) and every series of
  successful \<open>GetNewAddress\<close> calls followed by one \<open>BatchFinish\<close>: the cursor is 0
  afterwards, and whatever operations follow on the pool, with whatever answers, no
  \<open>GetNewAddress\<close> ever hands out an address of that series again. The derivation source
  is taken as a source without repetition: the strings in the window at the start and those
  that the manager supplies during the series and afterwards decode to different addresses
  (\<open>DecodeAddress\<close> being one function throughout). The pool never looks at
  \<open>addressReuse\<close> after \<open>initialize\<close>, so this holds with address reuse disabled (and
  enabled).
\<close>

theorem no_address_twice_after_commit:
  assumes "started a" and "0 \<le> cursor a"
    and "GetNewAddresses ws a = Some (rets, a1)"
    and "\<forall>w \<in> set ws \<union> set (allocating_wallets later). DecodeAddress w = DecodeAddress wd"
    and "distinct (map (decoded wd)
           (addresses a @ supplied (map OpGetNewAddress ws) a @
            supplied later (fst (snd (BatchFinish wc a1)))))"
  shows "cursor (fst (snd (BatchFinish wc a1))) = 0 \<and>
         (\<forall>r \<in> set (snd (run later (fst (snd (BatchFinish wc a1))))). r \<notin> set rets)"
proof -
  let ?a2 = "fst (snd (BatchFinish wc a1))"
  note f = GetNewAddresses_facts [OF assms(3)]
  from f assms(2) have c: "0 \<le> cursor a1" by simp
  from BatchFinish_pool [OF c, of wc] have
    a2: "?a2 = a1\<lparr>addresses := drop (nat (cursor a1)) (addresses a1), cursor := 0\<rparr>" .
  have st: "started a1"
  proof (cases "ws = []")
    case True with assms(1,3) show ?thesis by simp
  next
    case False
    from assms(3) assms(1) show ?thesis
    proof (induction ws arbitrary: a rets)
      case Nil then show ?case by simp
    next
      case (Cons w ws)
      then show ?case
        by (auto split: prod.splits outcome.splits sum.splits option.splits
                 dest!: GetNewAddress_success_step)
    qed
  qed
  then have st2: "started ?a2" using a2 by simp
  have dec: "decoded w = decoded wd" if "w \<in> set ws \<union> set (allocating_wallets later)" for w
    using assms(4) that by (auto simp: decoded_def fun_eq_iff)
  have d: "distinct (map (decoded wd) (addresses a1 @ supplied later ?a2))"
    using assms(5) f by simp
  have "r \<notin> set rets" if r: "r \<in> set (snd (run later ?a2))" for r
  proof
    assume "r \<in> set rets"
    with f obtain w s where w: "w \<in> set ws" and s: "s \<in> set (take (nat (cursor a1)) (addresses a1))"
      and rs: "r = decoded w s" by blast
    from run_returns [OF st2 r] obtain w' t where w': "w' \<in> set (allocating_wallets later)"
      and t: "t \<in> set (addresses ?a2 @ supplied later ?a2)" and rt: "r = decoded w' t" by blast
    from t a2 have t': "t \<in> set (drop (nat (cursor a1)) (addresses a1) @ supplied later ?a2)"
      by simp
    from distinct_map_take_drop [OF d s t'] have "decoded wd s \<noteq> decoded wd t" .
    with rs rt dec [of w] dec [of w'] w w' show False by simp
  qed
  with a2 show ?thesis by simp
qed

lemma BatchFinish_test:
  "BatchFinish (test_wallet 10)
     (test_pool [EncodeAddress (test_address 4), EncodeAddress (test_address 5),
                 EncodeAddress (test_address 6)] 2 ExternalBranch 6) =
   (Returns (), test_pool [EncodeAddress (test_address 6)] 0 ExternalBranch 6,
    [CallGetAddress 7 DefaultAccountNum ExternalBranch,
     CallStoreNextToUseAddresses (Some (test_address 7)) None])"
  by (simp add: model_defs)

lemma GetNewAddress_test_replenish:
  "GetNewAddress (test_wallet 10) (test_pool [EncodeAddress (test_address 6)] 0 ExternalBranch 6) =
   (Returns (Inr (decoded (test_wallet 10) (EncodeAddress (test_address 6)))),
    test_pool (EncodeAddress (test_address 6) #
               map (\<lambda>j. EncodeAddress (test_address (10 + of_nat j))) [0..<20]) 1 ExternalBranch 7,
    [CallNextExternalAddresses DefaultAccountNum 20,
     LogInfof ''Get new address for branch %v returned %s (idx %v)'',
     CallNotifyReceived [decoded (test_wallet 10) (EncodeAddress (test_address 6))]])"
  by (simp add: GetNewAddress_def replenish_def replenishes_def nextAddrFunc_def
      addressPoolBuffer_def test_wallet_def decoded_def Let_def o_def)

lemma GetNewAddress_test_again:
  "GetNewAddress (test_wallet 10)
     (test_pool (EncodeAddress (test_address 6) #
               map (\<lambda>j. EncodeAddress (test_address (10 + of_nat j))) [0..<20]) 0 ExternalBranch 6) =
   (Returns (Inr (decoded (test_wallet 10) (EncodeAddress (test_address 6)))),
    test_pool (EncodeAddress (test_address 6) #
               map (\<lambda>j. EncodeAddress (test_address (10 + of_nat j))) [0..<20]) 1 ExternalBranch 7,
    [LogInfof ''Get new address for branch %v returned %s (idx %v)'',
     CallNotifyReceived [decoded (test_wallet 10) (EncodeAddress (test_address 6))]])"
  by (simp add: GetNewAddress_def replenish_def replenishes_def nextAddrFunc_def
      addressPoolBuffer_def test_wallet_def decoded_def Let_def o_def)

lemma BatchRollback_test:
  "BatchRollback (test_pool win 1 br 7) = (test_pool win 0 br 6,
      [LogInfof ''Batch rollback for branch %v to idx %v''])"
  by (simp add: BatchRollback_def test_pool_def)

lemma run_test:
  "run [OpGetNewAddress (test_wallet 10), OpBatchRollback, OpGetNewAddress (test_wallet 10)]
       (test_pool [EncodeAddress (test_address 6)] 0 ExternalBranch 6) =
   (test_pool (EncodeAddress (test_address 6) #
               map (\<lambda>j. EncodeAddress (test_address (10 + of_nat j))) [0..<20]) 1 ExternalBranch 7,
    [decoded (test_wallet 10) (EncodeAddress (test_address 6)),
     decoded (test_wallet 10) (EncodeAddress (test_address 6))])"
  by (simp add: GetNewAddress_test_replenish GetNewAddress_test_again BatchRollback_test)

lemma supplied_test:
  "supplied [OpGetNewAddress (test_wallet 10), OpBatchRollback, OpGetNewAddress (test_wallet 10)]
       (test_pool [EncodeAddress (test_address 6)] 0 ExternalBranch 6) =
   map (\<lambda>j. EncodeAddress (test_address (10 + of_nat j))) [0..<20]"
  by (simp add: GetNewAddress_test_replenish GetNewAddress_test_again BatchRollback_test)

lemma distinct_test:
  "distinct (map (decoded (test_wallet 10))
     ([EncodeAddress (test_address 4), EncodeAddress (test_address 5),
       EncodeAddress (test_address 6)] @ [] @
      map (\<lambda>j. EncodeAddress (test_address (10 + of_nat j))) [0..<20]))"
  by (simp add: decoded_def test_wallet_def test_address_def upt_rec unat_word_ariths)

theorem no_address_twice_after_commit_witness:
  "GetNewAddresses [test_wallet 10, test_wallet 10]
     (test_pool [EncodeAddress (test_address 4), EncodeAddress (test_address 5),
                 EncodeAddress (test_address 6)] 0 ExternalBranch 4) =
   Some ([decoded (test_wallet 10) (EncodeAddress (test_address 4)),
          decoded (test_wallet 10) (EncodeAddress (test_address 5))],
         test_pool [EncodeAddress (test_address 4), EncodeAddress (test_address 5),
                    EncodeAddress (test_address 6)] 2 ExternalBranch 6) \<and>
   fst (snd (BatchFinish (test_wallet 10)
     (test_pool [EncodeAddress (test_address 4), EncodeAddress (test_address 5),
                 EncodeAddress (test_address 6)] 2 ExternalBranch 6))) =
     test_pool [EncodeAddress (test_address 6)] 0 ExternalBranch 6 \<and>
   snd (run [OpGetNewAddress (test_wallet 10), OpBatchRollback, OpGetNewAddress (test_wallet 10)]
          (test_pool [EncodeAddress (test_address 6)] 0 ExternalBranch 6)) =
     [decoded (test_wallet 10) (EncodeAddress (test_address 6)),
      decoded (test_wallet 10) (EncodeAddress (test_address 6))] \<and>
   decoded (test_wallet 10) (EncodeAddress (test_address 6)) \<notin>
     set [decoded (test_wallet 10) (EncodeAddress (test_address 4)),
          decoded (test_wallet 10) (EncodeAddress (test_address 5))] \<and>
   distinct (map (decoded (test_wallet 10))
     ([EncodeAddress (test_address 4), EncodeAddress (test_address 5),
       EncodeAddress (test_address 6)] @ [] @
      map (\<lambda>j. EncodeAddress (test_address (10 + of_nat j))) [0..<20]))"
proof -
  let ?w = "test_wallet 10"
  let ?win = "[EncodeAddress (test_address 4), EncodeAddress (test_address 5),
               EncodeAddress (test_address 6)]"
  let ?later = "[OpGetNewAddress ?w, OpBatchRollback, OpGetNewAddress ?w]"
  have h1: "started (test_pool ?win 0 ExternalBranch 4)"
    and h2: "0 \<le> cursor (test_pool ?win 0 ExternalBranch 4)"
    by simp_all
  have h4: "\<forall>w \<in> set [?w, ?w] \<union> set (allocating_wallets ?later).
              DecodeAddress w = DecodeAddress ?w"
    by simp
  have b: "fst (snd (BatchFinish ?w (test_pool ?win 2 ExternalBranch 6))) =
             test_pool [EncodeAddress (test_address 6)] 0 ExternalBranch 6"
    by (simp add: BatchFinish_test)
  have s0: "supplied (map OpGetNewAddress [?w, ?w]) (test_pool ?win 0 ExternalBranch 4) = []"
    by (simp add: model_defs)
  have h5: "distinct (map (decoded ?w)
           (addresses (test_pool ?win 0 ExternalBranch 4) @
            supplied (map OpGetNewAddress [?w, ?w]) (test_pool ?win 0 ExternalBranch 4) @
            supplied ?later (fst (snd (BatchFinish ?w (test_pool ?win 2 ExternalBranch 6))))))"
    unfolding b s0 supplied_test using distinct_test by simp
  from no_address_twice_after_commit [OF h1 h2 GetNewAddresses_test h4 h5]
  have "\<forall>r \<in> set (snd (run ?later (test_pool [EncodeAddress (test_address 6)] 0 ExternalBranch 6))).
          r \<notin> set [decoded ?w (EncodeAddress (test_address 4)),
                     decoded ?w (EncodeAddress (test_address 5))]"
    unfolding b by (elim conjE)
  then have "decoded ?w (EncodeAddress (test_address 6)) \<notin>
     set [decoded ?w (EncodeAddress (test_address 4)), decoded ?w (EncodeAddress (test_address 5))]"
    unfolding run_test by simp
  moreover have "snd (run ?later (test_pool [EncodeAddress (test_address 6)] 0 ExternalBranch 6)) =
     [decoded ?w (EncodeAddress (test_address 6)), decoded ?w (EncodeAddress (test_address 6))]"
    by (simp only: run_test snd_conv)
  ultimately show ?thesis
    using GetNewAddresses_test b distinct_test by (intro conjI)
qed

end
